theory Spec2Isabelle
  imports Complex_Main "HOL-Library.Monad_Syntax"
begin

section \<open>Scalars\<close>

text \<open>
  The routines of \<^verbatim>\<open>fill.hpp\<close> are templates over the scalar \<^verbatim>\<open>Type\<close> of the grid
  (\<^verbatim>\<open>float\<close> or \<^verbatim>\<open>double\<close>). The model keeps them polymorphic: the scalar is a
  type variable of the purely syntactic classes \<open>zero\<close>, \<open>plus\<close>, \<open>minus\<close>, \<open>times\<close>,
  \<open>inverse\<close>, \<open>abs\<close> and \<open>ord\<close>, so that no algebraic law (associativity, a total
  order, ...) is assumed of the arithmetic; \<open>+\<close>, \<open>-\<close>, \<open>*\<close>, \<open>/\<close>, \<open>\<bar>_\<bar>\<close> and \<open><\<close> stand
  for the machine operations. What the code needs of \<^verbatim>\<open>Type\<close> beyond these operators is
  collected in a record: the constant \<^verbatim>\<open>Type(0.25)\<close>, the test \<^verbatim>\<open>std::isnan\<close> and the
  conversion of a sample count to \<^verbatim>\<open>Type\<close>.
\<close>

record 'a scalar =
  quarter :: 'a
  isnan :: "'a \<Rightarrow> bool"
  of_count :: "nat \<Rightarrow> 'a"

text \<open>\<^verbatim>\<open>std::max(a, b)\<close> is \<^verbatim>\<open>(a < b) ? b : a\<close>.\<close>

definition std_max :: "'a::ord \<Rightarrow> 'a \<Rightarrow> 'a" where
  "std_max a b = (if a < b then b else a)"

text \<open>
  \<^verbatim>\<open>*std::max_element(first, last)\<close>: the first largest element under \<open><\<close>; on an empty
  range the iterator returned is \<^verbatim>\<open>last\<close> and reading it is undefined (\<open>None\<close>).
\<close>

fun max_element :: "'a::ord list \<Rightarrow> 'a option" where
  "max_element [] = None"
| "max_element (x # xs) = Some (foldl std_max x xs)"

text \<open>
  A concrete scalar for examples: exact arithmetic on the reals extended by one
  not-a-number value. A NaN operand gives a NaN result, every comparison with NaN is
  false. Rounding and infinities are not represented (a division by zero gives NaN); the
  examples below only compute with values that binary floating point represents exactly.
\<close>

datatype fp = NaN | Fin real

instantiation fp :: "{zero,one,plus,minus,times,inverse,abs,ord}"
begin

definition zero_fp :: fp where
  "zero_fp = Fin 0"

definition one_fp :: fp where
  "one_fp = Fin 1"

fun plus_fp :: "fp \<Rightarrow> fp \<Rightarrow> fp" where
  "plus_fp (Fin a) (Fin b) = Fin (a + b)"
| "plus_fp _ _ = NaN"

fun minus_fp :: "fp \<Rightarrow> fp \<Rightarrow> fp" where
  "minus_fp (Fin a) (Fin b) = Fin (a - b)"
| "minus_fp _ _ = NaN"

fun times_fp :: "fp \<Rightarrow> fp \<Rightarrow> fp" where
  "times_fp (Fin a) (Fin b) = Fin (a * b)"
| "times_fp _ _ = NaN"

fun divide_fp :: "fp \<Rightarrow> fp \<Rightarrow> fp" where
  "divide_fp (Fin a) (Fin b) = (if b = 0 then NaN else Fin (a / b))"
| "divide_fp _ _ = NaN"

fun inverse_fp :: "fp \<Rightarrow> fp" where
  "inverse_fp (Fin b) = (if b = 0 then NaN else Fin (1 / b))"
| "inverse_fp NaN = NaN"

fun abs_fp :: "fp \<Rightarrow> fp" where
  "abs_fp (Fin a) = Fin \<bar>a\<bar>"
| "abs_fp NaN = NaN"

fun less_fp :: "fp \<Rightarrow> fp \<Rightarrow> bool" where
  "less_fp (Fin a) (Fin b) = (a < b)"
| "less_fp _ _ = False"

fun less_eq_fp :: "fp \<Rightarrow> fp \<Rightarrow> bool" where
  "less_eq_fp (Fin a) (Fin b) = (a \<le> b)"
| "less_eq_fp _ _ = False"

instance ..

end

fun fp_isnan :: "fp \<Rightarrow> bool" where
  "fp_isnan NaN = True"
| "fp_isnan (Fin a) = False"

definition fp_scalar :: "fp scalar" where
  "fp_scalar = \<lparr>quarter = Fin (1 / 4), isnan = fp_isnan, of_count = (\<lambda>n. Fin (real n))\<rparr>"

section \<open>Grids\<close>

text \<open>
  The grid is an Eigen matrix borrowed from the caller: \<^verbatim>\<open>rows()\<close> is the extent of the
  X axis (index \<open>ix\<close>), \<^verbatim>\<open>cols()\<close> the extent of the Y axis (index \<open>iy\<close>), and \<^verbatim>\<open>grid(ix, iy)\<close>
  the coefficient. Indices are \<^verbatim>\<open>int64_t\<close> in the source and mathematical integers here
  (a matrix whose extents overflow 64 or 32 bits is not considered). Eigen does not check
  the indices of \<^verbatim>\<open>grid(ix, iy)\<close> and promises nothing for a coefficient outside the matrix:
  such a read throws nothing, it has undefined behaviour (it yields whatever the memory
  next to the matrix holds, or the program crashes). The accessor \<open>coeff_at\<close> makes such an
  access a fault (\<open>None\<close>): a computation that is \<open>None\<close> is one whose result the source
  does not determine, not one that raises an exception.
\<close>

record 'a matrix =
  rows :: int
  cols :: int
  coeff :: "int \<Rightarrow> int \<Rightarrow> 'a"

definition in_range :: "'a matrix \<Rightarrow> int \<Rightarrow> int \<Rightarrow> bool" where
  "in_range grid ix iy \<longleftrightarrow> 0 \<le> ix \<and> ix < rows grid \<and> 0 \<le> iy \<and> iy < cols grid"

definition coeff_at :: "'a matrix \<Rightarrow> int \<Rightarrow> int \<Rightarrow> 'a option" where
  "coeff_at grid ix iy = (if in_range grid ix iy then Some (coeff grid ix iy) else None)"

definition put :: "'a matrix \<Rightarrow> int \<Rightarrow> int \<Rightarrow> 'a \<Rightarrow> 'a matrix" where
  "put grid ix iy v = grid\<lparr>coeff := (coeff grid)(ix := (coeff grid ix)(iy := v))\<rparr>"

text \<open>
  The mask is a matrix of booleans of the shape of the grid; it is only ever read at
  indices of the loops, inside that shape, and is a predicate on indices here.
\<close>

type_synonym mask = "int \<Rightarrow> int \<Rightarrow> bool"

text \<open>A \<^verbatim>\<open>for\<close> loop whose body may fault: the first fault ends the loop.\<close>

fun for_each :: "('i \<Rightarrow> 's \<Rightarrow> 's option) \<Rightarrow> 'i list \<Rightarrow> 's \<Rightarrow> 's option" where
  "for_each body [] s = Some s"
| "for_each body (i # is) s =
     (case body i s of None \<Rightarrow> None | Some s' \<Rightarrow> for_each body is s')"

section \<open>One relaxation sweep: \<^verbatim>\<open>detail::gauss_seidel\<close>\<close>

text \<open>The neighbour indices computed by the worker (lines 137, 138, 150 and 151).\<close>

definition ix0_of :: "bool \<Rightarrow> int \<Rightarrow> int \<Rightarrow> int" where
  "ix0_of is_circle x_size ix =
     (if ix = 0 then (if is_circle then x_size - 1 else 1) else ix - 1)"

definition ix1_of :: "bool \<Rightarrow> int \<Rightarrow> int \<Rightarrow> int" where
  "ix1_of is_circle x_size ix =
     (if ix = x_size - 1 then (if is_circle then 0 else x_size - 2) else ix + 1)"

definition iy0_of :: "int \<Rightarrow> int" where
  "iy0_of iy = (if iy = 0 then 1 else iy - 1)"

definition iy1_of :: "int \<Rightarrow> int \<Rightarrow> int" where
  "iy1_of y_size iy = (if iy = y_size - 1 then y_size - 2 else iy + 1)"

text \<open>
  The lambda \<^verbatim>\<open>cell_fill\<close>: the state is the grid and the worker's \<^verbatim>\<open>*max_residual\<close>.
\<close>

definition cell_fill ::
  "('a::{zero,plus,minus,times,abs,ord}) scalar \<Rightarrow> 'a \<Rightarrow> int \<Rightarrow> int \<Rightarrow> int \<Rightarrow> int \<Rightarrow> int \<Rightarrow> int \<Rightarrow>
   'a matrix \<times> 'a \<Rightarrow> ('a matrix \<times> 'a) option" where
  "cell_fill T relaxation ix0 ix ix1 iy0 iy iy1 s =
     (case s of (grid, max_residual) \<Rightarrow>
        do {
          a \<leftarrow> coeff_at grid ix0 iy;
          b \<leftarrow> coeff_at grid ix1 iy;
          c \<leftarrow> coeff_at grid ix iy0;
          d \<leftarrow> coeff_at grid ix iy1;
          e \<leftarrow> coeff_at grid ix iy;
          let residual = (quarter T * (a + b + c + d) - e) * relaxation;
          Some (put grid ix iy (e + residual), std_max max_residual \<bar>residual\<bar>)
        })"

text \<open>
  The body of the inner loop at \<open>(ix, iy)\<close>, and the worker run on its own on the band
  \<open>y_start \<le> iy < y_end\<close>: \<^verbatim>\<open>*max_residual\<close> starts at \<^verbatim>\<open>Type(0)\<close>, the outer loop runs over
  \<open>ix\<close>, the inner one over the band. (The waits and notifications of the pipeline are in
  the section on the threaded sweep.)
\<close>

definition visit ::
  "('a::{zero,plus,minus,times,abs,ord}) scalar \<Rightarrow> mask \<Rightarrow> bool \<Rightarrow> 'a \<Rightarrow> int \<Rightarrow> int \<Rightarrow> int \<Rightarrow> int \<Rightarrow>
   'a matrix \<times> 'a \<Rightarrow> ('a matrix \<times> 'a) option" where
  "visit T msk is_circle relaxation x_size y_size ix iy s =
     (let ix0 = ix0_of is_circle x_size ix;
          ix1 = ix1_of is_circle x_size ix;
          iy0 = iy0_of iy;
          iy1 = iy1_of y_size iy
      in if msk ix iy then cell_fill T relaxation ix0 ix ix1 iy0 iy iy1 s else Some s)"

definition worker ::
  "('a::{zero,plus,minus,times,abs,ord}) scalar \<Rightarrow> mask \<Rightarrow> bool \<Rightarrow> 'a \<Rightarrow> int \<Rightarrow> int \<Rightarrow>
   'a matrix \<Rightarrow> ('a matrix \<times> 'a) option" where
  "worker T msk is_circle relaxation y_start y_end grid =
     (let x_size = rows grid; y_size = cols grid
      in for_each
           (\<lambda>ix. for_each (visit T msk is_circle relaxation x_size y_size ix)
                    [y_start .. y_end - 1])
           [0 .. x_size - 1] (grid, 0))"

text \<open>
  \<^verbatim>\<open>detail::gauss_seidel\<close> with \<^verbatim>\<open>num_threads == 1\<close>: one worker on the whole grid, and
  the largest of the (one) worker maxima.
\<close>

definition detail_gauss_seidel ::
  "('a::{zero,plus,minus,times,abs,ord}) scalar \<Rightarrow> 'a matrix \<Rightarrow> mask \<Rightarrow> bool \<Rightarrow> 'a \<Rightarrow>
   ('a matrix \<times> 'a) option" where
  "detail_gauss_seidel T grid msk is_circle relaxation =
     do {
       (grid', max_residual) \<leftarrow> worker T msk is_circle relaxation 0 (cols grid) grid;
       r \<leftarrow> max_element [max_residual];
       Some (grid', r)
     }"

section \<open>First guess and convergence loop: \<^verbatim>\<open>fill::gauss_seidel\<close>\<close>

datatype FirstGuess = kZero | kZonalAverage

definition hasNaN :: "'a scalar \<Rightarrow> 'a matrix \<Rightarrow> bool" where
  "hasNaN T grid =
     list_ex (\<lambda>ix. list_ex (\<lambda>iy. isnan T (coeff grid ix iy)) [0 .. cols grid - 1])
       [0 .. rows grid - 1]"

text \<open>\<^verbatim>\<open>grid.array().isNaN()\<close>, a matrix of the shape of the grid.\<close>

definition isNaN_mask :: "'a scalar \<Rightarrow> 'a matrix \<Rightarrow> mask" where
  "isNaN_mask T grid = (\<lambda>ix iy. in_range grid ix iy \<and> isnan T (coeff grid ix iy))"

text \<open>\<^verbatim>\<open>grid = (mask.array()).select(0, grid)\<close>.\<close>

definition select_zero :: "mask \<Rightarrow> ('a::zero) matrix \<Rightarrow> 'a matrix" where
  "select_zero msk grid =
     grid\<lparr>coeff := (\<lambda>ix iy. if msk ix iy then 0 else coeff grid ix iy)\<rparr>"

text \<open>
  \<^verbatim>\<open>boost::accumulators::accumulator_set<Type, stats<tag::count, tag::mean>>\<close>. Boost is
  not part of the repository; by its documentation the set counts the samples, sums
  them from \<^verbatim>\<open>Type()\<close>, and \<^verbatim>\<open>mean\<close> is the sum divided by the count.
\<close>

record 'a accumulator_set =
  acc_count :: nat
  acc_sum :: 'a

definition acc_init :: "('a::zero) accumulator_set" where
  "acc_init = \<lparr>acc_count = 0, acc_sum = 0\<rparr>"

definition acc_push :: "('a::plus) accumulator_set \<Rightarrow> 'a \<Rightarrow> 'a accumulator_set" where
  "acc_push acc x = \<lparr>acc_count = acc_count acc + 1, acc_sum = acc_sum acc + x\<rparr>"

definition acc_mean :: "('a::inverse) scalar \<Rightarrow> 'a accumulator_set \<Rightarrow> 'a" where
  "acc_mean T acc = acc_sum acc / of_count T (acc_count acc)"

text \<open>
  \<^verbatim>\<open>detail::set_zonal_average\<close>. The lines \<open>iy\<close> are dealt out to threads; a line reads
  and writes only its own coefficients, so the lines are run here one after the other.
\<close>

definition zonal_line ::
  "('a::{zero,plus,inverse}) scalar \<Rightarrow> mask \<Rightarrow> int \<Rightarrow> 'a matrix \<Rightarrow> 'a matrix" where
  "zonal_line T msk iy grid =
     (let acc = fold (\<lambda>ix acc. if \<not> msk ix iy then acc_push acc (coeff grid ix iy) else acc)
                  [0 .. rows grid - 1] acc_init;
          first_guess = (if acc_count acc \<noteq> 0 then acc_mean T acc else 0)
      in fold (\<lambda>ix g. if msk ix iy then put g ix iy first_guess else g)
           [0 .. rows grid - 1] grid)"

definition set_zonal_average ::
  "('a::{zero,plus,inverse}) scalar \<Rightarrow> 'a matrix \<Rightarrow> mask \<Rightarrow> 'a matrix" where
  "set_zonal_average T grid msk = fold (zonal_line T msk) [0 .. cols grid - 1] grid"

text \<open>
  The loop of \<^verbatim>\<open>fill::gauss_seidel\<close>, by the number of iterations left of
  \<^verbatim>\<open>max_iterations\<close>; \<open>iteration\<close> and \<open>max_residual\<close> are the two results. The sweep of
  the loop is the one of a single thread: the number of threads is not a parameter here,
  and the sweep of two threads or more returns the same grid and the same residual (see
  the section on the threaded sweep). The first guess is one of the two enumerators; the
  \<^verbatim>\<open>default\<close> branch of the \<^verbatim>\<open>switch\<close>, which throws for any other value, has no input.
\<close>

fun relax ::
  "('a::{zero,plus,minus,times,abs,ord}) scalar \<Rightarrow> mask \<Rightarrow> bool \<Rightarrow> 'a \<Rightarrow> 'a \<Rightarrow> nat \<Rightarrow>
   nat \<Rightarrow> 'a \<Rightarrow> 'a matrix \<Rightarrow> ((nat \<times> 'a) \<times> 'a matrix) option" where
  "relax T msk is_circle relaxation epsilon 0 iteration max_residual grid =
     Some ((iteration, max_residual), grid)"
| "relax T msk is_circle relaxation epsilon (Suc left) iteration max_residual grid =
     (case detail_gauss_seidel T grid msk is_circle relaxation of
        None \<Rightarrow> None
      | Some (grid', r) \<Rightarrow>
          if r < epsilon then Some ((iteration + 1, r), grid')
          else relax T msk is_circle relaxation epsilon left (iteration + 1) r grid')"

definition fill_gauss_seidel ::
  "('a::{zero,plus,minus,times,inverse,abs,ord}) scalar \<Rightarrow> 'a matrix \<Rightarrow> FirstGuess \<Rightarrow> bool \<Rightarrow>
   nat \<Rightarrow> 'a \<Rightarrow> 'a \<Rightarrow> ((nat \<times> 'a) \<times> 'a matrix) option" where
  "fill_gauss_seidel T grid first_guess is_circle max_iterations epsilon relaxation =
     (if \<not> hasNaN T grid then Some ((0, 0), grid)
      else
        let msk = isNaN_mask T grid;
            seeded = (case first_guess of
                        kZero \<Rightarrow> select_zero msk grid
                      | kZonalAverage \<Rightarrow> set_zonal_average T grid msk)
        in relax T msk is_circle relaxation epsilon max_iterations 0 0 seeded)"

section \<open>The sweep in the words of the specification\<close>

text \<open>
  The order in which a worker visits the cells of the band \<open>y_start \<le> iy < y_end\<close>: \<open>ix\<close> in
  the outer loop, \<open>iy\<close> in the inner one; \<open>precedes\<close> is that order on cells.
\<close>

definition scan :: "int \<Rightarrow> int \<Rightarrow> int \<Rightarrow> (int \<times> int) list" where
  "scan x_size y_start y_end = List.product [0 .. x_size - 1] [y_start .. y_end - 1]"

definition precedes :: "int \<times> int \<Rightarrow> int \<times> int \<Rightarrow> bool" where
  "precedes c' c \<longleftrightarrow> fst c' < fst c \<or> (fst c' = fst c \<and> snd c' < snd c)"

text \<open>
  What the update of the cell \<open>(ix, iy)\<close> sees during a sweep from \<open>grid\<close> to \<open>grid'\<close>: the
  new value of every cell visited before it, the old value of every other cell.
\<close>

definition seen :: "'a matrix \<Rightarrow> 'a matrix \<Rightarrow> int \<Rightarrow> int \<Rightarrow> 'a matrix" where
  "seen grid grid' ix iy =
     grid\<lparr>coeff := (\<lambda>jx jy. if precedes (jx, jy) (ix, iy) then coeff grid' jx jy
                             else coeff grid jx jy)\<rparr>"

text \<open>
  The residual of the cell \<open>(ix, iy)\<close> computed on the coefficients of \<open>g\<close>: the relaxation
  factor times a quarter of the sum of the left, right, lower and upper neighbours minus
  the cell itself.
\<close>

definition residual_in ::
  "('a::{zero,plus,minus,times,abs,ord}) scalar \<Rightarrow> 'a \<Rightarrow> bool \<Rightarrow> int \<Rightarrow> int \<Rightarrow> 'a matrix \<Rightarrow>
   int \<Rightarrow> int \<Rightarrow> 'a" where
  "residual_in T relaxation is_circle x_size y_size g ix iy =
     (quarter T * (coeff g (ix0_of is_circle x_size ix) iy + coeff g (ix1_of is_circle x_size ix) iy
                   + coeff g ix (iy0_of iy) + coeff g ix (iy1_of y_size iy))
      - coeff g ix iy) * relaxation"

text \<open>
  The absolute residuals of the flagged cells of the band \<open>y_start \<le> iy < y_end\<close> in a sweep
  from \<open>grid\<close> to \<open>grid'\<close>, and what it is for \<open>m\<close> to be a maximum of a set \<open>S\<close> of scalars:
  \<open>m\<close> is one of them and is below none of them.
\<close>

definition residuals ::
  "('a::{zero,plus,minus,times,abs,ord}) scalar \<Rightarrow> mask \<Rightarrow> bool \<Rightarrow> 'a \<Rightarrow> 'a matrix \<Rightarrow> 'a matrix \<Rightarrow>
   int \<Rightarrow> int \<Rightarrow> 'a set" where
  "residuals T msk is_circle relaxation grid grid' y_start y_end =
     {\<bar>residual_in T relaxation is_circle (rows grid) (cols grid) (seen grid grid' ix iy) ix iy\<bar>
        | ix iy. 0 \<le> ix \<and> ix < rows grid \<and> y_start \<le> iy \<and> iy < y_end \<and> msk ix iy}"

definition is_maximum :: "('a::ord) set \<Rightarrow> 'a \<Rightarrow> bool" where
  "is_maximum S m \<longleftrightarrow> m \<in> S \<and> (\<forall>y\<in>S. \<not> m < y)"

text \<open>The grid and the residual after \<open>k\<close> sweeps in a row.\<close>

fun sweeps ::
  "('a::{zero,plus,minus,times,abs,ord}) scalar \<Rightarrow> mask \<Rightarrow> bool \<Rightarrow> 'a \<Rightarrow> nat \<Rightarrow>
   'a matrix \<times> 'a \<Rightarrow> ('a matrix \<times> 'a) option" where
  "sweeps T msk is_circle relaxation 0 s = Some s"
| "sweeps T msk is_circle relaxation (Suc k) s =
     (case detail_gauss_seidel T (fst s) msk is_circle relaxation of
        None \<Rightarrow> None
      | Some s' \<Rightarrow> sweeps T msk is_circle relaxation k s')"

text \<open>
  The defined cells of the line \<open>iy\<close>, along the X axis, and the mean of a list of
  samples: their sum, taken in order from zero, over their number.
\<close>

definition defined_cells :: "mask \<Rightarrow> 'a matrix \<Rightarrow> int \<Rightarrow> 'a list" where
  "defined_cells msk grid iy =
     map (\<lambda>ix. coeff grid ix iy) (filter (\<lambda>ix. \<not> msk ix iy) [0 .. rows grid - 1])"

definition mean_of :: "('a::{zero,plus,inverse}) scalar \<Rightarrow> 'a list \<Rightarrow> 'a" where
  "mean_of T xs = foldl (+) 0 xs / of_count T (length xs)"

text \<open>The first guess of the line \<open>iy\<close>: the mean of its defined cells, zero without any.\<close>

definition first_guess_of ::
  "('a::{zero,plus,inverse}) scalar \<Rightarrow> mask \<Rightarrow> 'a matrix \<Rightarrow> int \<Rightarrow> 'a" where
  "first_guess_of T msk grid iy =
     (if defined_cells msk grid iy = [] then 0 else mean_of T (defined_cells msk grid iy))"

section \<open>Example grids\<close>

text \<open>
  The 5 by 5 grid of the specification's example: every cell is 1.0 but the one in the
  middle, which is undefined; \<open>flat5 c\<close> is that grid with the value \<open>c\<close> in the middle,
  \<open>center\<close> the mask of the example, \<open>grid1\<close> a grid of a single, undefined cell.
\<close>

definition grid5 :: "fp matrix" where
  "grid5 = \<lparr>rows = 5, cols = 5, coeff = (\<lambda>ix iy. if ix = 2 \<and> iy = 2 then NaN else Fin 1)\<rparr>"

definition flat5 :: "real \<Rightarrow> fp matrix" where
  "flat5 c = \<lparr>rows = 5, cols = 5, coeff = (\<lambda>ix iy. if ix = 2 \<and> iy = 2 then Fin c else Fin 1)\<rparr>"

definition center :: mask where
  "center = (\<lambda>ix iy. ix = 2 \<and> iy = 2)"

definition grid1 :: "fp matrix" where
  "grid1 = \<lparr>rows = 1, cols = 1, coeff = (\<lambda>ix iy. NaN)\<rparr>"

text \<open>
  A grid of 2 by 2 cells for the maximum of the residuals: the cells but \<open>(1, 0)\<close> are
  flagged (\<open>corner\<close>); \<open>grid2'\<close> is the grid after one sweep with the relaxation factor 0.5.
  The residuals of the flagged cells are, in the order of the scan, 1/2, \<open>- 9/8\<close> and 23/32;
  of two threads, the first has the cells \<open>(0, 0)\<close> and \<open>(1, 0)\<close>, the second the cells
  \<open>(0, 1)\<close> and \<open>(1, 1)\<close>. And a grid of one line of two cells, the first of which is undefined, for
  a circular X axis: \<open>ring2_after c\<close> is that grid with the value \<open>c\<close> in the first cell.
\<close>

definition grid2 :: "fp matrix" where
  "grid2 = \<lparr>rows = 2, cols = 2,
            coeff = (\<lambda>ix iy. if ix = 0 \<and> iy = 0 then Fin 2 else if ix = 0 \<and> iy = 1 then Fin 4
                             else if ix = 1 \<and> iy = 0 then Fin 2 else if ix = 1 \<and> iy = 1 then Fin 1
                             else Fin 0)\<rparr>"

definition grid2' :: "fp matrix" where
  "grid2' = \<lparr>rows = 2, cols = 2,
             coeff = (\<lambda>ix iy. if ix = 0 \<and> iy = 0 then Fin (5 / 2)
                              else if ix = 0 \<and> iy = 1 then Fin (23 / 8)
                              else if ix = 1 \<and> iy = 0 then Fin 2
                              else if ix = 1 \<and> iy = 1 then Fin (55 / 32)
                              else Fin 0)\<rparr>"

definition corner :: mask where
  "corner = (\<lambda>ix iy. \<not> (ix = 1 \<and> iy = 0))"

definition ring2 :: "fp matrix" where
  "ring2 = \<lparr>rows = 1, cols = 2, coeff = (\<lambda>ix iy. if ix = 0 \<and> iy = 0 then NaN else Fin 1)\<rparr>"

definition ring2_after :: "real \<Rightarrow> fp matrix" where
  "ring2_after c = \<lparr>rows = 1, cols = 2, coeff = (\<lambda>ix iy. if ix = 0 \<and> iy = 0 then Fin c else Fin 1)\<rparr>"

section \<open>The LOESS extrapolator: \<^verbatim>\<open>fill::loess\<close>\<close>

text \<open>
  \<^verbatim>\<open>Axis\<close> and \<^verbatim>\<open>Grid2D\<close> are collaborators that are not among the sources at hand. What
  \<^verbatim>\<open>loess\<close> uses of them is taken as given: of an axis its size, the coordinate of an
  index (\<^verbatim>\<open>(*axis)(i)\<close>, a \<^verbatim>\<open>double\<close>) and the list of indexes of the window of half-width
  \<open>n\<close> around a coordinate (\<^verbatim>\<open>find_indexes(x, n, Axis::kSym)\<close>); of the grid its two axes and
  its values, of the scalar \<^verbatim>\<open>Type\<close>.
\<close>

record 'd axis =
  axis_size :: int
  coordinate :: "int \<Rightarrow> 'd"
  find_indexes :: "'d \<Rightarrow> nat \<Rightarrow> int list"

record ('a, 'd) grid2d =
  x_axis :: "'d axis"
  y_axis :: "'d axis"
  grid_value :: "int \<Rightarrow> int \<Rightarrow> 'a"

text \<open>
  The arithmetic of \<^verbatim>\<open>loess\<close> is kept as it is in the source, operation by operation, and
  nothing is assumed of it: the grid values, \<^verbatim>\<open>value\<close> and \<^verbatim>\<open>weight\<close> are of the scalar
  \<^verbatim>\<open>Type\<close> (the type variable \<open>'a\<close>), the coordinates, the distance \<open>d\<close> and the weight \<open>wi\<close>
  are \<^verbatim>\<open>double\<close>s (the type variable \<open>'d\<close>); \<open>+\<close>, \<open>-\<close>, \<open>*\<close>, \<open>/\<close>, \<open>\<le>\<close>, \<open>0\<close> and \<open>1\<close> stand for
  the machine operations and constants. What the code needs beyond these operators is
  collected in a record: \<^verbatim>\<open>std::isnan\<close> on a \<^verbatim>\<open>Type\<close>, the conversion of a \<^verbatim>\<open>Type\<close> to
  \<^verbatim>\<open>double\<close> (in \<^verbatim>\<open>wi * zi\<close>), \<^verbatim>\<open>static_cast<Type>\<close> of a \<^verbatim>\<open>double\<close>, the conversion of a
  \<^verbatim>\<open>uint32_t\<close> to \<^verbatim>\<open>double\<close> (of \<^verbatim>\<open>nx\<close> and \<^verbatim>\<open>ny\<close> in the quotients), \<^verbatim>\<open>std::sqrt\<close>, and
  \<^verbatim>\<open>std::pow(., power)\<close> for the constant \<^verbatim>\<open>power = 3.0\<close>.
\<close>

record ('a, 'd) loess_scalar =
  value_isnan :: "'a \<Rightarrow> bool"
  to_double :: "'a \<Rightarrow> 'd"
  of_double :: "'d \<Rightarrow> 'a"
  of_uint32 :: "nat \<Rightarrow> 'd"
  std_sqrt :: "'d \<Rightarrow> 'd"
  std_pow3 :: "'d \<Rightarrow> 'd"

text \<open>
  Modelled from the spec: \<^verbatim>\<open>detail::math::sqr\<close> (of \<^verbatim>\<open>pyinterp/detail/math.hpp\<close>, which is
  not among the sources) is the square, as in the distance
  \<open>sqrt((\<Delta>x/halfWidthX)^2 + (\<Delta>y/halfWidthY)^2)\<close> of the specification.
\<close>

definition sqr :: "'d::times \<Rightarrow> 'd" where
  "sqr a = a * a"

text \<open>
  The weight \<open>wi\<close> of the cell \<open>(wx, wy)\<close> for the point of coordinates \<open>(x, y)\<close> (lines 327 to
  332).
\<close>

definition weight_at ::
  "('a, 'd::{zero,one,plus,minus,times,inverse,ord}) loess_scalar \<Rightarrow> ('a, 'd) grid2d \<Rightarrow>
   nat \<Rightarrow> nat \<Rightarrow> 'd \<Rightarrow> 'd \<Rightarrow> int \<Rightarrow> int \<Rightarrow> 'd" where
  "weight_at A grid nx ny x y wx wy =
     (let d = std_sqrt A (sqr ((coordinate (x_axis grid) wx - x) / of_uint32 A nx)
                          + sqr ((coordinate (y_axis grid) wy - y) / of_uint32 A ny))
      in if d \<le> 1 then std_pow3 A (1 - std_pow3 A d) else 0)"

text \<open>The two loops over the frame: the sums \<open>value\<close> and \<open>weight\<close>, from \<^verbatim>\<open>Type(0)\<close>.\<close>

definition loess_sums ::
  "('a::{zero,plus}, 'd::{zero,one,plus,minus,times,inverse,ord}) loess_scalar \<Rightarrow>
   ('a, 'd) grid2d \<Rightarrow> nat \<Rightarrow> nat \<Rightarrow> 'd \<Rightarrow> 'd \<Rightarrow> int list \<Rightarrow> int list \<Rightarrow> 'a \<times> 'a" where
  "loess_sums A grid nx ny x y x_frame y_frame =
     fold (\<lambda>wx. fold (\<lambda>wy (value, weight).
                        let zi = grid_value grid wx wy
                        in if \<not> value_isnan A zi
                           then (let wi = weight_at A grid nx ny x y wx wy
                                 in (value + of_double A (wi * to_double A zi),
                                     weight + of_double A wi))
                           else (value, weight))
                   y_frame)
       x_frame (0, 0)"

text \<open>
  The value written to \<^verbatim>\<open>_result(ix, iy)\<close>, and the array returned. The test
  \<^verbatim>\<open>weight != 0\<close> is the inequality with the zero of the scalar, \<^verbatim>\<open>Type(0)\<close>, from which
  \<^verbatim>\<open>weight\<close> is summed.
\<close>

definition loess_cell ::
  "('a::{zero,plus,inverse}, 'd::{zero,one,plus,minus,times,inverse,ord}) loess_scalar \<Rightarrow>
   ('a, 'd) grid2d \<Rightarrow> nat \<Rightarrow> nat \<Rightarrow> int \<Rightarrow> int \<Rightarrow> 'a" where
  "loess_cell A grid nx ny ix iy =
     (let x = coordinate (x_axis grid) ix;
          z = grid_value grid ix iy
      in if value_isnan A z
         then (let y = coordinate (y_axis grid) iy;
                   x_frame = find_indexes (x_axis grid) x nx;
                   y_frame = find_indexes (y_axis grid) y ny;
                   (value, weight) = loess_sums A grid nx ny x y x_frame y_frame
               in if weight \<noteq> 0 then value / weight else z)
         else z)"

definition loess ::
  "('a::{zero,plus,inverse}, 'd::{zero,one,plus,minus,times,inverse,ord}) loess_scalar \<Rightarrow>
   ('a, 'd) grid2d \<Rightarrow> nat \<Rightarrow> nat \<Rightarrow> 'a matrix" where
  "loess A grid nx ny =
     \<lparr>rows = axis_size (x_axis grid), cols = axis_size (y_axis grid),
      coeff = loess_cell A grid nx ny\<rparr>"

text \<open>
  An arithmetic for the examples, not the one of \<^verbatim>\<open>double\<close>: values and doubles are both of
  the concrete scalar \<open>fp\<close> (exact arithmetic), the conversions do nothing, the square root
  of a negative number is NaN. The examples only compute with values on which binary
  floating point gives the same results: small integers, halves and eighths, and the
  square roots of 1 and 4.
\<close>

fun fp_sqrt :: "fp \<Rightarrow> fp" where
  "fp_sqrt (Fin a) = (if a < 0 then NaN else Fin (sqrt a))"
| "fp_sqrt NaN = NaN"

fun fp_pow3 :: "fp \<Rightarrow> fp" where
  "fp_pow3 (Fin a) = Fin (a ^ 3)"
| "fp_pow3 NaN = NaN"

definition fp_loess :: "(fp, fp) loess_scalar" where
  "fp_loess =
     \<lparr>value_isnan = fp_isnan, to_double = (\<lambda>z. z), of_double = (\<lambda>w. w),
      of_uint32 = (\<lambda>n. Fin (real n)), std_sqrt = fp_sqrt, std_pow3 = fp_pow3\<rparr>"

section \<open>LOESS in the words of the specification\<close>

text \<open>
  The window of a cell and the weight accumulated for it, for any arithmetic.
\<close>

definition window :: "('a, 'd) grid2d \<Rightarrow> nat \<Rightarrow> nat \<Rightarrow> int \<Rightarrow> int \<Rightarrow> (int \<times> int) list" where
  "window grid nx ny ix iy =
     List.product (find_indexes (x_axis grid) (coordinate (x_axis grid) ix) nx)
       (find_indexes (y_axis grid) (coordinate (y_axis grid) iy) ny)"

definition accumulated_weight ::
  "('a::{zero,plus}, 'd::{zero,one,plus,minus,times,inverse,ord}) loess_scalar \<Rightarrow>
   ('a, 'd) grid2d \<Rightarrow> nat \<Rightarrow> nat \<Rightarrow> int \<Rightarrow> int \<Rightarrow> 'a" where
  "accumulated_weight A grid nx ny ix iy =
     snd (loess_sums A grid nx ny (coordinate (x_axis grid) ix) (coordinate (y_axis grid) iy)
            (find_indexes (x_axis grid) (coordinate (x_axis grid) ix) nx)
            (find_indexes (y_axis grid) (coordinate (y_axis grid) iy) ny))"

text \<open>
  The value that the specification gives to an undefined cell, over the real numbers: the
  tri-cube kernel \<open>w(d) = (1 - |d|^3)^3\<close>, zero beyond the distance 1; the normalised
  distance \<open>d = sqrt((\<Delta>x/halfWidthX)^2 + (\<Delta>y/halfWidthY)^2)\<close> between two cells, \<open>\<Delta>x\<close> and \<open>\<Delta>y\<close>
  being differences of indexes; and the weighted average of the defined cells of a list
  (NaN when the weights add up to zero).
\<close>

definition tri_cube :: "real \<Rightarrow> real" where
  "tri_cube d = (if d > 1 then 0 else (1 - \<bar>d\<bar> ^ 3) ^ 3)"

definition index_distance :: "nat \<Rightarrow> nat \<Rightarrow> int \<Rightarrow> int \<Rightarrow> int \<Rightarrow> int \<Rightarrow> real" where
  "index_distance nx ny ix iy wx wy =
     sqrt ((real_of_int (wx - ix) / real nx) ^ 2 + (real_of_int (wy - iy) / real ny) ^ 2)"

fun number :: "fp \<Rightarrow> real" where
  "number (Fin a) = a"
| "number NaN = 0"

definition defined_in :: "(fp, 'd) grid2d \<Rightarrow> (int \<times> int) list \<Rightarrow> (int \<times> int) list" where
  "defined_in grid cells = filter (\<lambda>(wx, wy). \<not> fp_isnan (grid_value grid wx wy)) cells"

definition weighted_average ::
  "(int \<Rightarrow> int \<Rightarrow> real) \<Rightarrow> (fp, 'd) grid2d \<Rightarrow> (int \<times> int) list \<Rightarrow> fp" where
  "weighted_average dst grid cells =
     Fin (\<Sum>(wx, wy) \<leftarrow> defined_in grid cells. tri_cube (dst wx wy) * number (grid_value grid wx wy))
     / Fin (\<Sum>(wx, wy) \<leftarrow> defined_in grid cells. tri_cube (dst wx wy))"

text \<open>
  An example: five points along X, two units apart, a single line along Y; the value of a
  cell is its index along X, but the middle cell is undefined. The window of a
  coordinate holds the indexes at most \<open>n\<close> points away.
\<close>

definition loess_example :: "(fp, fp) grid2d" where
  "loess_example =
     \<lparr>x_axis = \<lparr>axis_size = 5, coordinate = (\<lambda>i. Fin (2 * real_of_int i)),
                find_indexes = (\<lambda>c n. filter (\<lambda>i. \<bar>Fin (2 * real_of_int i) - c\<bar> \<le> Fin (2 * real n))
                                         [0 .. 4])\<rparr>,
      y_axis = \<lparr>axis_size = 1, coordinate = (\<lambda>i. Fin (real_of_int i)),
                find_indexes = (\<lambda>c n. filter (\<lambda>i. \<bar>Fin (real_of_int i) - c\<bar> \<le> Fin (real n))
                                         [0 .. 0])\<rparr>,
      grid_value = (\<lambda>wx wy. if wx = 2 then NaN else Fin (real_of_int wx))\<rparr>"

section \<open>The threaded sweep: \<^verbatim>\<open>detail::gauss_seidel\<close> with two threads or more\<close>

text \<open>
  With \<^verbatim>\<open>num_threads >= 2\<close> the Y axis is cut into bands, one per thread: \<^verbatim>\<open>shift\<close> is
  \<^verbatim>\<open>y_size / num_threads\<close>, thread \<open>k\<close> gets \<open>k * shift \<le> iy < (k + 1) * shift\<close> and the last
  thread everything from \<open>(num_threads - 1) * shift\<close> to \<open>y_size\<close>.
\<close>

definition y_start_of :: "nat \<Rightarrow> int \<Rightarrow> nat \<Rightarrow> int" where
  "y_start_of num_threads y_size k = int k * (y_size div int num_threads)"

definition y_end_of :: "nat \<Rightarrow> int \<Rightarrow> nat \<Rightarrow> int" where
  "y_end_of num_threads y_size k =
     (if k = num_threads - 1 then y_size else (int k + 1) * (y_size div int num_threads))"

text \<open>\<^verbatim>\<open>coordinates(ix, iy, size)\<close>.\<close>

definition coordinates :: "int \<Rightarrow> int \<Rightarrow> int \<Rightarrow> int" where
  "coordinates ix iy sz = iy * sz + ix"

text \<open>
  The threads run the lambda \<^verbatim>\<open>worker\<close> side by side on the one grid. A thread is, at any
  moment, at one of these points of \<^verbatim>\<open>worker\<close>: at the head of the outer loop for the
  index \<open>ix\<close>, before the loop test and the wait on \<^verbatim>\<open>pipe_in\<close> (\<open>Wait ix\<close>); in the inner
  loop, before the test and the body for \<open>(ix, iy)\<close> (\<open>Visit ix iy\<close>, which for \<open>iy\<close> at the end
  of the band is the point before the store to \<^verbatim>\<open>pipe_out\<close>); or after the outer loop
  (\<open>Finished\<close>). The state shared by the threads is the grid, the vector \<^verbatim>\<open>max_residuals\<close>
  and the vector \<^verbatim>\<open>pipeline\<close> of atomic integers, which start at
  \<^verbatim>\<open>std::numeric_limits<int>::min()\<close>.
\<close>

datatype pc = Wait int | Visit int int | Finished

record 'a config =
  shared_grid :: "'a matrix"
  pc :: "nat \<Rightarrow> pc"
  max_residuals :: "nat \<Rightarrow> 'a"
  pipeline :: "nat \<Rightarrow> int"

definition initial :: "('a::zero) matrix \<Rightarrow> 'a config" where
  "initial grid =
     \<lparr>shared_grid = grid, pc = (\<lambda>k. Wait 0), max_residuals = (\<lambda>k. 0),
      pipeline = (\<lambda>k. - 2147483648)\<rparr>"

text \<open>
  One step of thread \<open>k\<close>. At \<open>Wait ix\<close>: the outer loop ends when \<open>ix\<close> has reached \<open>x_size\<close>;
  otherwise a thread other than the first reads \<^verbatim>\<open>*pipe_in\<close>, the entry \<open>k - 1\<close> of the
  pipeline, and sleeps (the state stays as it is) as long as it is below
  \<^verbatim>\<open>coordinates(ix, y_start, y_size)\<close>; otherwise the thread enters the inner loop. At
  \<open>Visit ix iy\<close>: inside the band the thread runs the body of the inner loop on the shared
  grid and its own maximum; at the end of the band a thread other than the last stores
  \<^verbatim>\<open>coordinates(ix, y_end, y_size)\<close> into \<^verbatim>\<open>*pipe_out\<close>, the entry \<open>k\<close> of the pipeline, and every
  thread goes to the next \<open>ix\<close>. The body of the inner loop on one cell is one step: the
  theorem on the threaded sweep shows that no other thread can touch, at that moment, a
  cell which the body reads or writes.
\<close>

definition thread_step ::
  "('a::{zero,plus,minus,times,abs,ord}) scalar \<Rightarrow> mask \<Rightarrow> bool \<Rightarrow> 'a \<Rightarrow> int \<Rightarrow> int \<Rightarrow> nat \<Rightarrow>
   nat \<Rightarrow> 'a config \<Rightarrow> 'a config option" where
  "thread_step T msk is_circle relaxation x_size y_size num_threads k c =
     (let y_start = y_start_of num_threads y_size k;
          y_end = y_end_of num_threads y_size k
      in if num_threads \<le> k then Some c
         else case pc c k of
           Finished \<Rightarrow> Some c
         | Wait ix \<Rightarrow>
             if ix < x_size
             then (if 0 < k \<and> pipeline c (k - 1) < coordinates ix y_start y_size
                   then Some c
                   else Some (c\<lparr>pc := (pc c)(k := Visit ix y_start)\<rparr>))
             else Some (c\<lparr>pc := (pc c)(k := Finished)\<rparr>)
         | Visit ix iy \<Rightarrow>
             if iy < y_end
             then (case visit T msk is_circle relaxation x_size y_size ix iy
                          (shared_grid c, max_residuals c k) of
                     None \<Rightarrow> None
                   | Some (grid', max_residual) \<Rightarrow>
                       Some (c\<lparr>shared_grid := grid',
                               max_residuals := (max_residuals c)(k := max_residual),
                               pc := (pc c)(k := Visit ix (iy + 1))\<rparr>))
             else Some (c\<lparr>pipeline := (if k < num_threads - 1
                                        then (pipeline c)(k := coordinates ix y_end y_size)
                                        else pipeline c),
                           pc := (pc c)(k := Wait (ix + 1))\<rparr>))"

text \<open>
  An execution is the list of the threads that take the steps, in order (a schedule); a
  fault in a step ends it.
\<close>

fun run ::
  "('a::{zero,plus,minus,times,abs,ord}) scalar \<Rightarrow> mask \<Rightarrow> bool \<Rightarrow> 'a \<Rightarrow> int \<Rightarrow> int \<Rightarrow> nat \<Rightarrow>
   nat list \<Rightarrow> 'a config \<Rightarrow> 'a config option" where
  "run T msk is_circle relaxation x_size y_size num_threads [] c = Some c"
| "run T msk is_circle relaxation x_size y_size num_threads (k # schedule) c =
     (case thread_step T msk is_circle relaxation x_size y_size num_threads k c of
        None \<Rightarrow> None
      | Some c' \<Rightarrow> run T msk is_circle relaxation x_size y_size num_threads schedule c')"

text \<open>
  The sweep returns once every thread is joined, with the largest of the maxima of the
  threads. Under a schedule the threaded sweep has faulted, is still running, or has
  returned a grid and a residual.
\<close>

datatype 'a outcome = Fault | Running | Returned 'a

definition joined :: "nat \<Rightarrow> 'a config \<Rightarrow> bool" where
  "joined num_threads c = list_all (\<lambda>k. pc c k = Finished) [0 ..< num_threads]"

definition threaded_gauss_seidel ::
  "('a::{zero,plus,minus,times,abs,ord}) scalar \<Rightarrow> 'a matrix \<Rightarrow> mask \<Rightarrow> bool \<Rightarrow> 'a \<Rightarrow> nat \<Rightarrow>
   nat list \<Rightarrow> ('a matrix \<times> 'a) outcome" where
  "threaded_gauss_seidel T grid msk is_circle relaxation num_threads schedule =
     (case run T msk is_circle relaxation (rows grid) (cols grid) num_threads schedule
             (initial grid) of
        None \<Rightarrow> Fault
      | Some c \<Rightarrow>
          if joined num_threads c
          then (case max_element (map (max_residuals c) [0 ..< num_threads]) of
                  None \<Rightarrow> Fault
                | Some r \<Rightarrow> Returned (shared_grid c, r))
          else Running)"

section \<open>The threaded sweep in the words of the specification\<close>

text \<open>
  The cells that a thread at a given point has behind it, and the number of indexes \<open>ix\<close>
  that it has completed.
\<close>

fun past :: "pc \<Rightarrow> int \<times> int \<Rightarrow> bool" where
  "past (Wait ix) c = (fst c < ix)"
| "past (Visit ix iy) c = precedes c (ix, iy)"
| "past Finished c = True"

fun done_rows :: "int \<Rightarrow> pc \<Rightarrow> int" where
  "done_rows x_size (Wait ix) = ix"
| "done_rows x_size (Visit ix iy) = ix"
| "done_rows x_size Finished = x_size"

text \<open>
  What is asked of the comparison of the scalar for the maximum of the thread maxima to be
  the maximum of the single thread: on a set \<open>V\<close> of values (for floating point, the
  numbers that are not negative and not NaN) \<open><\<close> is a strict total order, and no value
  of \<open>V\<close> is below a value outside of \<open>V\<close> (a comparison with NaN is false).
\<close>

definition ordered_numbers :: "('a::ord) set \<Rightarrow> bool" where
  "ordered_numbers V \<longleftrightarrow>
     (\<forall>x\<in>V. \<not> x < x)
     \<and> (\<forall>x\<in>V. \<forall>y\<in>V. \<forall>z\<in>V. x < y \<longrightarrow> y < z \<longrightarrow> x < z)
     \<and> (\<forall>x\<in>V. \<forall>y\<in>V. x < y \<or> x = y \<or> y < x)
     \<and> (\<forall>x\<in>V. \<forall>y. y \<notin> V \<longrightarrow> \<not> x < y)"

text \<open>The steps that a thread still has to take.\<close>

fun steps_left :: "int \<Rightarrow> int \<Rightarrow> int \<Rightarrow> pc \<Rightarrow> nat" where
  "steps_left x_size y_start y_end Finished = 0"
| "steps_left x_size y_start y_end (Wait ix) =
     1 + nat (x_size - ix) * (nat (y_end - y_start) + 2)"
| "steps_left x_size y_start y_end (Visit ix iy) =
     1 + nat (x_size - ix - 1) * (nat (y_end - y_start) + 2) + (nat (y_end - iy) + 1)"


text \<open>
  The maximum of thread \<open>k\<close> at a point \<open>p\<close> of its band, in terms of the sweep of a single
  thread from \<open>G\<close> to \<open>G'\<close>.
\<close>

definition residual_of ::
  "('a::{zero,plus,minus,times,abs,ord}) scalar \<Rightarrow> 'a \<Rightarrow> bool \<Rightarrow> 'a matrix \<Rightarrow> 'a matrix \<Rightarrow>
   int \<times> int \<Rightarrow> 'a" where
  "residual_of T relaxation is_circle G G' c =
     \<bar>residual_in T relaxation is_circle (rows G) (cols G) (seen G G' (fst c) (snd c)) (fst c) (snd c)\<bar>"

definition maximum_over ::
  "('a::{zero,plus,minus,times,abs,ord}) scalar \<Rightarrow> mask \<Rightarrow> bool \<Rightarrow> 'a \<Rightarrow> 'a matrix \<Rightarrow> 'a matrix \<Rightarrow>
   (int \<times> int) list \<Rightarrow> 'a" where
  "maximum_over T msk is_circle relaxation G G' cells =
     foldl std_max 0
       (map (residual_of T relaxation is_circle G G') (filter (\<lambda>c. msk (fst c) (snd c)) cells))"

text \<open>
  The state of the threads between two steps, in terms of the sweep of a single thread
  from \<open>G\<close> to \<open>G'\<close>: every thread is inside its band; the pipeline entry of a thread holds
  the last index \<open>ix\<close> that it has completed; a thread has completed no more indexes than
  the thread before it, and is working on an index that the thread before it has
  completed; a cell holds its new value when its thread has it behind it and its old
  value otherwise; and the maximum of a thread is the running maximum of the residuals
  of the cells behind it.
\<close>

definition pc_inside :: "int \<Rightarrow> int \<Rightarrow> int \<Rightarrow> pc \<Rightarrow> bool" where
  "pc_inside x_size y_start y_end p =
     (case p of
        Wait ix \<Rightarrow> 0 \<le> ix \<and> ix \<le> x_size
      | Visit ix iy \<Rightarrow> 0 \<le> ix \<and> ix < x_size \<and> y_start \<le> iy \<and> iy \<le> y_end
      | Finished \<Rightarrow> True)"

definition published :: "int \<Rightarrow> int \<Rightarrow> int \<Rightarrow> int" where
  "published y_size y_end rows_done =
     (if rows_done = 0 then - 2147483648 else coordinates (rows_done - 1) y_end y_size)"

definition sweep_invariant ::
  "('a::{zero,plus,minus,times,abs,ord}) scalar \<Rightarrow> mask \<Rightarrow> bool \<Rightarrow> 'a \<Rightarrow> nat \<Rightarrow>
   'a matrix \<Rightarrow> 'a matrix \<Rightarrow> 'a config \<Rightarrow> bool" where
  "sweep_invariant T msk is_circle relaxation n G G' c \<longleftrightarrow>
     rows (shared_grid c) = rows G \<and> cols (shared_grid c) = cols G
     \<and> (\<forall>k<n. pc_inside (rows G) (y_start_of n (cols G) k) (y_end_of n (cols G) k) (pc c k))
     \<and> (\<forall>k. Suc k < n \<longrightarrow>
           pipeline c k = published (cols G) (y_end_of n (cols G) k) (done_rows (rows G) (pc c k)))
     \<and> (\<forall>k. Suc k < n \<longrightarrow>
           done_rows (rows G) (pc c (Suc k)) \<le> done_rows (rows G) (pc c k)
           \<and> (\<forall>ix iy. pc c (Suc k) = Visit ix iy \<longrightarrow> ix < done_rows (rows G) (pc c k)))
     \<and> (\<forall>k<n. \<forall>jx jy. y_start_of n (cols G) k \<le> jy \<and> jy < y_end_of n (cols G) k \<longrightarrow>
           coeff (shared_grid c) jx jy
             = (if past (pc c k) (jx, jy) then coeff G' jx jy else coeff G jx jy))
     \<and> (\<forall>jx jy. \<not> (0 \<le> jy \<and> jy < cols G) \<longrightarrow> coeff (shared_grid c) jx jy = coeff G jx jy)
     \<and> (\<forall>k<n. max_residuals c k
           = maximum_over T msk is_circle relaxation G G'
               (filter (past (pc c k))
                  (scan (rows G) (y_start_of n (cols G) k) (y_end_of n (cols G) k))))"

text \<open>The number of steps that the threads still have to take.\<close>

definition steps_to_go :: "int \<Rightarrow> int \<Rightarrow> nat \<Rightarrow> 'a config \<Rightarrow> nat" where
  "steps_to_go x_size y_size n c =
     (\<Sum>k<n. steps_left x_size (y_start_of n y_size k) (y_end_of n y_size k) (pc c k))"

text \<open>\<open>m\<close> is a greatest number of \<open>S\<close>: a number of \<open>S\<close> that is below no number of \<open>S\<close>.\<close>

definition greatest_of :: "('a::ord) set \<Rightarrow> 'a set \<Rightarrow> 'a \<Rightarrow> bool" where
  "greatest_of V S m \<longleftrightarrow> m \<in> V \<and> m \<in> S \<and> (\<forall>y\<in>S. y \<in> V \<longrightarrow> \<not> m < y)"

text \<open>The point of thread \<open>k\<close> after its next step, when the step is not a fault.\<close>

definition next_pc :: "int \<Rightarrow> int \<Rightarrow> nat \<Rightarrow> nat \<Rightarrow> 'a config \<Rightarrow> pc" where
  "next_pc x_size y_size n k c =
     (case pc c k of
        Finished \<Rightarrow> Finished
      | Wait ix \<Rightarrow>
          if ix < x_size
          then (if 0 < k \<and> pipeline c (k - 1) < coordinates ix (y_start_of n y_size k) y_size
                then Wait ix else Visit ix (y_start_of n y_size k))
          else Finished
      | Visit ix iy \<Rightarrow>
          if iy < y_end_of n y_size k then Visit ix (iy + 1) else Wait (ix + 1))"

section \<open>Loops and the scan order\<close>

lemma for_each_append:
  "for_each f (xs @ ys) s = (case for_each f xs s of None \<Rightarrow> None | Some s' \<Rightarrow> for_each f ys s')"
  by (induction xs arbitrary: s) (auto split: option.splits)

lemma for_each_product:
  "for_each (\<lambda>x. for_each (f x) ys) xs s = for_each (\<lambda>(x, y). f x y) (List.product xs ys) s"
proof (induction xs arbitrary: s)
  case Nil
  show ?case by simp
next
  case (Cons x xs)
  have m: "for_each (\<lambda>(x, y). f x y) (map (Pair x) ys) t = for_each (f x) ys t" for t
    by (induction ys arbitrary: t) (auto split: option.splits)
  show ?case
    by (simp add: for_each_append m Cons.IH split: option.splits)
qed

lemma worker_scan:
  "worker T msk is_circle relaxation y_start y_end grid =
     for_each (\<lambda>(ix, iy). visit T msk is_circle relaxation (rows grid) (cols grid) ix iy)
       (scan (rows grid) y_start y_end) (grid, 0)"
  by (simp add: worker_def scan_def for_each_product Let_def)

lemma sorted_wrt_upto: "sorted_wrt (<) [i..j]"
  by (simp add: strict_sorted_iff)

lemma precedes_product:
  assumes "sorted_wrt (<) xs" "sorted_wrt (<) ys"
  shows "sorted_wrt precedes (List.product xs ys)"
  using assms(1)
proof (induction xs)
  case Nil
  show ?case by simp
next
  case (Cons x xs)
  have "sorted_wrt precedes (map (Pair x) ys)"
    using assms(2) by (simp add: sorted_wrt_map precedes_def)
  moreover have "\<forall>a\<in>set (map (Pair x) ys). \<forall>b\<in>set (List.product xs ys). precedes a b"
    using Cons.prems by (auto simp: precedes_def)
  ultimately show ?case
    using Cons by (simp add: sorted_wrt_append)
qed

lemma sorted_scan: "sorted_wrt precedes (scan x_size y_start y_end)"
  by (simp add: scan_def precedes_product sorted_wrt_upto)

lemma set_scan:
  "set (scan x_size y_start y_end) = {(ix, iy). 0 \<le> ix \<and> ix < x_size \<and> y_start \<le> iy \<and> iy < y_end}"
  by (auto simp: scan_def)

lemma cell_fill_Some:
  assumes "cell_fill T relaxation ix0 ix ix1 iy0 iy iy1 (g, m) = Some (g', m')"
  shows "in_range g ix0 iy \<and> in_range g ix1 iy \<and> in_range g ix iy0 \<and> in_range g ix iy1
         \<and> in_range g ix iy
         \<and> g' = put g ix iy (coeff g ix iy
                + (quarter T * (coeff g ix0 iy + coeff g ix1 iy + coeff g ix iy0 + coeff g ix iy1)
                   - coeff g ix iy) * relaxation)
         \<and> m' = std_max m \<bar>(quarter T * (coeff g ix0 iy + coeff g ix1 iy + coeff g ix iy0
                      + coeff g ix iy1) - coeff g ix iy) * relaxation\<bar>"
  using assms
  by (auto simp: cell_fill_def coeff_at_def Let_def split: if_splits Option.bind_splits)

lemma cell_fill_in_range:
  assumes "in_range g ix0 iy" "in_range g ix1 iy" "in_range g ix iy0" "in_range g ix iy1"
    "in_range g ix iy"
  shows "cell_fill T relaxation ix0 ix ix1 iy0 iy iy1 (g, m) =
         Some (put g ix iy (coeff g ix iy
                + (quarter T * (coeff g ix0 iy + coeff g ix1 iy + coeff g ix iy0 + coeff g ix iy1)
                   - coeff g ix iy) * relaxation),
               std_max m \<bar>(quarter T * (coeff g ix0 iy + coeff g ix1 iy + coeff g ix iy0
                      + coeff g ix iy1) - coeff g ix iy) * relaxation\<bar>)"
  using assms by (simp add: cell_fill_def coeff_at_def Let_def)

lemma visit_Some:
  assumes "visit T msk is_circle relaxation x_size y_size ix iy (g, m) = Some (g', m')"
  shows "rows g' = rows g" "cols g' = cols g"
    "(jx, jy) \<noteq> (ix, iy) \<Longrightarrow> coeff g' jx jy = coeff g jx jy"
    "\<not> msk ix iy \<Longrightarrow> g' = g \<and> m' = m"
    "msk ix iy \<Longrightarrow>
       coeff g' ix iy = coeff g ix iy + residual_in T relaxation is_circle x_size y_size g ix iy
       \<and> m' = std_max m \<bar>residual_in T relaxation is_circle x_size y_size g ix iy\<bar>"
  using assms
  by (auto simp: visit_def Let_def put_def residual_in_def dest!: cell_fill_Some split: if_splits)


lemma precedes_irrefl: "\<not> precedes c c"
  by (simp add: precedes_def)

lemma precedes_asym: "precedes a b \<Longrightarrow> \<not> precedes b a"
  by (auto simp: precedes_def)

lemma residual_in_cong:
  assumes "\<And>jx jy. coeff g jx jy = coeff h jx jy"
  shows "residual_in T relaxation is_circle x_size y_size g ix iy
         = residual_in T relaxation is_circle x_size y_size h ix iy"
  by (simp add: residual_in_def assms)

lemma coeff_seen:
  "coeff (seen grid grid' ix iy) jx jy =
     (if precedes (jx, jy) (ix, iy) then coeff grid' jx jy else coeff grid jx jy)"
  by (simp add: seen_def)

lemma for_each_visit_trace:
  fixes T :: "('a::{zero,plus,minus,times,abs,ord}) scalar"
  assumes "sorted_wrt precedes cs"
    and "for_each (\<lambda>(ix, iy). visit T msk is_circle relaxation x_size y_size ix iy) cs (g, m)
         = Some (g', m')"
  shows "rows g' = rows g \<and> cols g' = cols g
    \<and> (\<forall>jx jy. coeff g' jx jy =
          (if (jx, jy) \<in> set cs \<and> msk jx jy
           then coeff g jx jy
                + residual_in T relaxation is_circle x_size y_size (seen g g' jx jy) jx jy
           else coeff g jx jy))
    \<and> m' = foldl std_max m
              (map (\<lambda>(ix, iy). \<bar>residual_in T relaxation is_circle x_size y_size
                                   (seen g g' ix iy) ix iy\<bar>)
                 (filter (\<lambda>(ix, iy). msk ix iy) cs))"
  using assms
proof (induction cs arbitrary: g m)
  case Nil
  then show ?case by simp
next
  case (Cons c cs)
  obtain ix iy where c: "c = (ix, iy)" by (cases c)
  from Cons.prems(2) obtain g2 m2 where
    step: "visit T msk is_circle relaxation x_size y_size ix iy (g, m) = Some (g2, m2)"
    and rest: "for_each (\<lambda>(ix, iy). visit T msk is_circle relaxation x_size y_size ix iy) cs
                 (g2, m2) = Some (g', m')"
    by (auto simp: c split: option.splits)
  from Cons.prems(1) have sorted: "sorted_wrt precedes cs"
    and before: "\<And>d. d \<in> set cs \<Longrightarrow> precedes c d"
    by auto
  note IH = Cons.IH [OF sorted rest]
  have notin: "c \<notin> set cs"
    using before precedes_irrefl by blast
  have g2_other: "coeff g2 jx jy = coeff g jx jy" if "(jx, jy) \<noteq> (ix, iy)" for jx jy
    using visit_Some(3) [OF step that] .
  have g'_c: "coeff g' ix iy = coeff g2 ix iy"
    using IH notin by (simp add: c)
  have seen_c: "coeff (seen g g' ix iy) jx jy = coeff g jx jy" for jx jy
  proof (cases "precedes (jx, jy) (ix, iy)")
    case True
    then have "(jx, jy) \<notin> set cs" "(jx, jy) \<noteq> (ix, iy)"
      using before precedes_asym precedes_irrefl c by blast+
    then show ?thesis
      using IH g2_other by (simp add: coeff_seen)
  next
    case False
    then show ?thesis by (simp add: coeff_seen)
  qed
  have res_c: "residual_in T relaxation is_circle x_size y_size (seen g g' ix iy) ix iy
               = residual_in T relaxation is_circle x_size y_size g ix iy"
    by (rule residual_in_cong) (rule seen_c)
  have seen_d: "coeff (seen g2 g' jx jy) kx ky = coeff (seen g g' jx jy) kx ky"
    if "(jx, jy) \<in> set cs" for jx jy kx ky
  proof (cases "precedes (kx, ky) (jx, jy)")
    case True
    then show ?thesis by (simp add: coeff_seen)
  next
    case False
    with before [OF that] have "(kx, ky) \<noteq> (ix, iy)"
      by (auto simp: c)
    with False show ?thesis
      by (simp add: coeff_seen g2_other)
  qed
  have res_d: "residual_in T relaxation is_circle x_size y_size (seen g2 g' jx jy) jx jy
               = residual_in T relaxation is_circle x_size y_size (seen g g' jx jy) jx jy"
    if "(jx, jy) \<in> set cs" for jx jy
    by (rule residual_in_cong) (rule seen_d [OF that])
  have shape: "rows g' = rows g \<and> cols g' = cols g"
    using IH visit_Some(1,2) [OF step] by simp
  have cells: "coeff g' jx jy =
          (if (jx, jy) \<in> set (c # cs) \<and> msk jx jy
           then coeff g jx jy
                + residual_in T relaxation is_circle x_size y_size (seen g g' jx jy) jx jy
           else coeff g jx jy)" for jx jy
  proof (cases "(jx, jy) = (ix, iy)")
    case True
    then show ?thesis
      using g'_c visit_Some(4,5) [OF step] res_c by (auto simp: c)
  next
    case False
    then show ?thesis
      using IH g2_other [OF False] res_d by (auto simp: c)
  qed
  have maps: "map (\<lambda>(ix, iy). \<bar>residual_in T relaxation is_circle x_size y_size
                                   (seen g2 g' ix iy) ix iy\<bar>)
                 (filter (\<lambda>(ix, iy). msk ix iy) cs)
            = map (\<lambda>(ix, iy). \<bar>residual_in T relaxation is_circle x_size y_size
                                   (seen g g' ix iy) ix iy\<bar>)
                 (filter (\<lambda>(ix, iy). msk ix iy) cs)"
    by (rule map_cong) (auto simp: res_d)
  have maxes: "m' = foldl std_max m
              (map (\<lambda>(ix, iy). \<bar>residual_in T relaxation is_circle x_size y_size
                                   (seen g g' ix iy) ix iy\<bar>)
                 (filter (\<lambda>(ix, iy). msk ix iy) (c # cs)))"
    using IH visit_Some(4,5) [OF step] res_c by (auto simp: c maps)
  from shape cells maxes show ?case by blast
qed


lemma for_each_total:
  assumes "P s"
    and "\<And>i s. i \<in> set xs \<Longrightarrow> P s \<Longrightarrow> \<exists>s'. body i s = Some s' \<and> P s'"
  shows "\<exists>s'. for_each body xs s = Some s' \<and> P s'"
  using assms
proof (induction xs arbitrary: s)
  case Nil
  then show ?case by simp
next
  case (Cons i xs)
  from Cons.prems obtain s1 where s1: "body i s = Some s1" "P s1"
    by (meson list.set_intros(1))
  from Cons.IH [OF s1(2)] Cons.prems(2) obtain s' where "for_each body xs s1 = Some s'" "P s'"
    by (meson list.set_intros(2))
  with s1 show ?case by simp
qed

lemma for_each_None:
  assumes "x \<in> set xs" "P s"
    and "\<And>i s s'. i \<in> set xs \<Longrightarrow> P s \<Longrightarrow> body i s = Some s' \<Longrightarrow> P s'"
    and "\<And>s. P s \<Longrightarrow> body x s = None"
  shows "for_each body xs s = None"
  using assms
proof (induction xs arbitrary: s)
  case Nil
  then show ?case by simp
next
  case (Cons i xs)
  show ?case
  proof (cases "body i s")
    case None
    then show ?thesis by simp
  next
    case (Some s1)
    with Cons.prems have "P s1" "i \<noteq> x"
      by (auto simp del: not_None_eq)
    with Cons.prems have "for_each body xs s1 = None"
      by (intro Cons.IH) auto
    with Some show ?thesis by simp
  qed
qed

lemma neighbours_in_range:
  assumes "0 \<le> ix" "ix < x_size" "0 \<le> iy" "iy < y_size" "2 \<le> x_size \<or> is_circle" "2 \<le> y_size"
  shows "0 \<le> ix0_of is_circle x_size ix \<and> ix0_of is_circle x_size ix < x_size
       \<and> 0 \<le> ix1_of is_circle x_size ix \<and> ix1_of is_circle x_size ix < x_size
       \<and> 0 \<le> iy0_of iy \<and> iy0_of iy < y_size
       \<and> 0 \<le> iy1_of y_size iy \<and> iy1_of y_size iy < y_size"
  using assms by (auto simp: ix0_of_def ix1_of_def iy0_of_def iy1_of_def)

lemma visit_total:
  fixes T :: "('a::{zero,plus,minus,times,abs,ord}) scalar"
  assumes "rows g = x_size" "cols g = y_size" "in_range g ix iy"
    "2 \<le> x_size \<or> is_circle" "2 \<le> y_size"
  shows "\<exists>s'. visit T msk is_circle relaxation x_size y_size ix iy (g, m) = Some s'
              \<and> rows (fst s') = x_size \<and> cols (fst s') = y_size"
proof (cases "msk ix iy")
  case False
  with assms show ?thesis by (simp add: visit_def)
next
  case True
  from assms have r: "0 \<le> ix" "ix < x_size" "0 \<le> iy" "iy < y_size"
    by (auto simp: in_range_def)
  from neighbours_in_range [OF r assms(4,5)] assms(1,2) r
  have "in_range g (ix0_of is_circle x_size ix) iy" "in_range g (ix1_of is_circle x_size ix) iy"
    "in_range g ix (iy0_of iy)" "in_range g ix (iy1_of y_size iy)"
    by (auto simp: in_range_def)
  from cell_fill_in_range [OF this assms(3)] True assms(1,2) show ?thesis
    by (simp add: visit_def put_def)
qed

lemma worker_total:
  fixes T :: "('a::{zero,plus,minus,times,abs,ord}) scalar"
  assumes "2 \<le> rows grid \<or> is_circle" "2 \<le> cols grid" "0 \<le> y_start" "y_end \<le> cols grid"
  shows "\<exists>s'. worker T msk is_circle relaxation y_start y_end grid = Some s'
              \<and> rows (fst s') = rows grid \<and> cols (fst s') = cols grid"
  unfolding worker_scan
proof (rule for_each_total [where P = "\<lambda>s. rows (fst s) = rows grid \<and> cols (fst s) = cols grid"])
  show "rows (fst (grid, 0::'a)) = rows grid \<and> cols (fst (grid, 0::'a)) = cols grid"
    by simp
next
  fix c :: "int \<times> int" and s :: "'a matrix \<times> 'a"
  assume c: "c \<in> set (scan (rows grid) y_start y_end)"
    and s: "rows (fst s) = rows grid \<and> cols (fst s) = cols grid"
  obtain ix iy where [simp]: "c = (ix, iy)" by (cases c)
  obtain g m where [simp]: "s = (g, m)" by (cases s)
  from c assms(3,4) s have "in_range g ix iy"
    by (auto simp: set_scan in_range_def)
  with s visit_total [of g "rows grid" "cols grid" ix iy is_circle T msk relaxation m] assms(1,2)
  show "\<exists>s'. (case c of (ix, iy) \<Rightarrow> visit T msk is_circle relaxation (rows grid) (cols grid) ix iy) s
               = Some s' \<and> rows (fst s') = rows grid \<and> cols (fst s') = cols grid"
    by simp
qed

lemma sweep_total:
  fixes T :: "('a::{zero,plus,minus,times,abs,ord}) scalar"
  assumes "2 \<le> rows grid \<or> is_circle" "2 \<le> cols grid"
  shows "\<exists>grid' r. detail_gauss_seidel T grid msk is_circle relaxation = Some (grid', r)
              \<and> rows grid' = rows grid \<and> cols grid' = cols grid"
proof -
  from worker_total [OF assms, of 0 "cols grid" T msk relaxation]
  obtain g' m where "worker T msk is_circle relaxation 0 (cols grid) grid = Some (g', m)"
    "rows g' = rows grid" "cols g' = cols grid"
    by auto
  then show ?thesis
    by (simp add: detail_gauss_seidel_def)
qed

lemma sweep_worker:
  fixes T :: "('a::{zero,plus,minus,times,abs,ord}) scalar"
  shows "detail_gauss_seidel T grid msk is_circle relaxation
         = worker T msk is_circle relaxation 0 (cols grid) grid"
  by (cases "worker T msk is_circle relaxation 0 (cols grid) grid")
     (auto simp: detail_gauss_seidel_def)

lemma sweep_trace:
  fixes T :: "('a::{zero,plus,minus,times,abs,ord}) scalar"
  assumes "detail_gauss_seidel T grid msk is_circle relaxation = Some (grid', r)"
  shows "rows grid' = rows grid \<and> cols grid' = cols grid
    \<and> (\<forall>ix iy. coeff grid' ix iy =
          (if in_range grid ix iy \<and> msk ix iy
           then coeff grid ix iy
                + residual_in T relaxation is_circle (rows grid) (cols grid)
                    (seen grid grid' ix iy) ix iy
           else coeff grid ix iy))
    \<and> r = foldl std_max 0
              (map (\<lambda>(ix, iy). \<bar>residual_in T relaxation is_circle (rows grid) (cols grid)
                                   (seen grid grid' ix iy) ix iy\<bar>)
                 (filter (\<lambda>(ix, iy). msk ix iy) (scan (rows grid) 0 (cols grid))))"
proof -
  have mem: "(ix, iy) \<in> set (scan (rows grid) 0 (cols grid)) \<longleftrightarrow> in_range grid ix iy" for ix iy
    by (auto simp: set_scan in_range_def)
  from assms have "for_each (\<lambda>(ix, iy). visit T msk is_circle relaxation (rows grid) (cols grid) ix iy)
       (scan (rows grid) 0 (cols grid)) (grid, 0) = Some (grid', r)"
    by (simp add: sweep_worker worker_scan)
  from for_each_visit_trace [OF sorted_scan this] show ?thesis
    by (simp add: mem)
qed

lemmas example_simps =
  detail_gauss_seidel_def worker_def visit_def cell_fill_def coeff_at_def in_range_def put_def
  std_max_def ix0_of_def ix1_of_def iy0_of_def iy1_of_def zero_fp_def fp_scalar_def hasNaN_def
  isNaN_mask_def select_zero_def Let_def upto.simps

lemma sweep_flat5:
  "detail_gauss_seidel fp_scalar (flat5 c) center is_circle (Fin 1) = Some (flat5 1, Fin \<bar>1 - c\<bar>)"
  by (simp add: example_simps flat5_def center_def fun_eq_iff)

section \<open>Neighbour indices\<close>

text \<open>
  C3. The neighbours used by the update of the cell \<open>(ix, iy)\<close> are \<open>ix0\<close>, \<open>ix1\<close> along the X
  axis (the axis that can wrap) and \<open>iy0\<close>, \<open>iy1\<close> along the Y axis. On a circular X axis
  the left neighbour of index 0 is the last index and the right neighbour of the last
  index is 0; on a non-circular one the left neighbour of index 0 is index 1 and the right
  neighbour of the last index is \<open>x_size - 2\<close>. Along the Y axis the lower neighbour of
  index 0 is index 1 and the upper neighbour of the last index is \<open>y_size - 2\<close>, whatever
  \<open>is_circle\<close> is. Away from these edges the neighbours are \<open>ix - 1\<close>, \<open>ix + 1\<close>, \<open>iy - 1\<close>
  and \<open>iy + 1\<close>.
\<close>

theorem neighbour_indices:
  fixes T :: "('a::{zero,plus,minus,times,abs,ord}) scalar"
  shows "visit T msk is_circle relaxation x_size y_size ix iy s =
           (if msk ix iy
            then cell_fill T relaxation (ix0_of is_circle x_size ix) ix (ix1_of is_circle x_size ix)
                   (iy0_of iy) iy (iy1_of y_size iy) s
            else Some s)
    \<and> ix0_of True x_size 0 = x_size - 1 \<and> ix1_of True x_size (x_size - 1) = 0
    \<and> ix0_of False x_size 0 = 1 \<and> ix1_of False x_size (x_size - 1) = x_size - 2
    \<and> iy0_of 0 = 1 \<and> iy1_of y_size (y_size - 1) = y_size - 2
    \<and> (ix \<noteq> 0 \<longrightarrow> ix0_of is_circle x_size ix = ix - 1)
    \<and> (ix \<noteq> x_size - 1 \<longrightarrow> ix1_of is_circle x_size ix = ix + 1)
    \<and> (iy \<noteq> 0 \<longrightarrow> iy0_of iy = iy - 1)
    \<and> (iy \<noteq> y_size - 1 \<longrightarrow> iy1_of y_size iy = iy + 1)"
  by (simp add: visit_def ix0_of_def ix1_of_def iy0_of_def iy1_of_def)

theorem neighbour_indices_witness:
  "(3::int) \<noteq> 0 \<and> (3::int) \<noteq> 5 - 1 \<and> (2::int) \<noteq> 0 \<and> (2::int) \<noteq> 4 - 1
   \<and> ix0_of True 5 3 = 2 \<and> ix1_of True 5 3 = 4 \<and> iy0_of 2 = 1 \<and> iy1_of 4 2 = 3
   \<and> ix0_of True 5 0 = 4 \<and> ix1_of True 5 4 = 0 \<and> ix0_of False 5 0 = 1 \<and> ix1_of False 5 4 = 3
   \<and> iy0_of 0 = 1 \<and> iy1_of 4 3 = 2
   \<and> visit fp_scalar center True (Fin 1) 5 4 3 2 (flat5 0, 0) = Some (flat5 0, 0)"
  using neighbour_indices [of fp_scalar center True "Fin 1" 5 4 3 2 "(flat5 0, 0)"]
    neighbour_indices [of fp_scalar center False "Fin 1" 5 4 3 2 "(flat5 0, 0)"]
  by (simp add: center_def)

section \<open>Grids without undefined cells\<close>

text \<open>
  C5. On a grid without a NaN coefficient the fill returns the pair (0, 0), zero
  iterations and a zero residual, without a fault, and the grid as it was.
\<close>

theorem fill_without_nan:
  fixes T :: "('a::{zero,plus,minus,times,inverse,abs,ord}) scalar"
  assumes "\<not> hasNaN T grid"
  shows "fill_gauss_seidel T grid first_guess is_circle max_iterations epsilon relaxation
           = Some ((0, 0), grid)"
  using assms by (simp add: fill_gauss_seidel_def)

theorem fill_without_nan_witness:
  "\<not> hasNaN fp_scalar (flat5 1)
   \<and> fill_gauss_seidel fp_scalar (flat5 1) kZonalAverage True 50 (Fin (1 / 1000000)) (Fin 1)
       = Some ((0, 0), flat5 1)"
proof -
  have h: "\<not> hasNaN fp_scalar (flat5 1)"
    by (simp add: example_simps flat5_def)
  from h fill_without_nan [OF h] show ?thesis
    by simp
qed

lemma cell_fill_None:
  assumes "\<not> (in_range g ix0 iy \<and> in_range g ix1 iy \<and> in_range g ix iy0 \<and> in_range g ix iy1)"
  shows "cell_fill T relaxation ix0 ix ix1 iy0 iy iy1 (g, m) = None"
  using assms by (auto simp: cell_fill_def coeff_at_def)

lemma sweep_None:
  fixes T :: "('a::{zero,plus,minus,times,abs,ord}) scalar"
  assumes "in_range grid ix iy" "msk ix iy"
    and "\<not> (0 \<le> ix0_of is_circle (rows grid) ix \<and> ix0_of is_circle (rows grid) ix < rows grid
           \<and> 0 \<le> ix1_of is_circle (rows grid) ix \<and> ix1_of is_circle (rows grid) ix < rows grid
           \<and> 0 \<le> iy0_of iy \<and> iy0_of iy < cols grid
           \<and> 0 \<le> iy1_of (cols grid) iy \<and> iy1_of (cols grid) iy < cols grid)"
  shows "detail_gauss_seidel T grid msk is_circle relaxation = None"
  unfolding sweep_worker worker_scan
proof (rule for_each_None [where x = "(ix, iy)"
      and P = "\<lambda>s. rows (fst s) = rows grid \<and> cols (fst s) = cols grid"])
  show "(ix, iy) \<in> set (scan (rows grid) 0 (cols grid))"
    using assms(1) by (simp add: set_scan in_range_def)
  show "rows (fst (grid, 0::'a)) = rows grid \<and> cols (fst (grid, 0::'a)) = cols grid"
    by simp
next
  fix c :: "int \<times> int" and s s' :: "'a matrix \<times> 'a"
  assume "rows (fst s) = rows grid \<and> cols (fst s) = cols grid"
    and "(case c of (ix, iy) \<Rightarrow> visit T msk is_circle relaxation (rows grid) (cols grid) ix iy) s
         = Some s'"
  then show "rows (fst s') = rows grid \<and> cols (fst s') = cols grid"
    using visit_Some(1,2) [of T msk is_circle relaxation "rows grid" "cols grid" "fst c" "snd c"
        "fst s" "snd s" "fst s'" "snd s'"]
    by (simp add: case_prod_unfold)
next
  fix s :: "'a matrix \<times> 'a"
  assume s: "rows (fst s) = rows grid \<and> cols (fst s) = cols grid"
  obtain g m where [simp]: "s = (g, m)" by (cases s)
  from s assms(1,3) have "\<not> (in_range g (ix0_of is_circle (rows grid) ix) iy
      \<and> in_range g (ix1_of is_circle (rows grid) ix) iy
      \<and> in_range g ix (iy0_of iy) \<and> in_range g ix (iy1_of (cols grid) iy))"
    by (auto simp: in_range_def)
  from cell_fill_None [OF this] assms(2)
  show "(case (ix, iy) of (ix, iy) \<Rightarrow> visit T msk is_circle relaxation (rows grid) (cols grid) ix iy) s
        = None"
    by (simp add: visit_def)
qed

section \<open>Bounds of the neighbour indices\<close>

text \<open>
  C10. On a grid of extent 1 along the X axis, not circular, with a flagged cell
  \<open>(0, iy)\<close>, the neighbour indices along X are 1 and \<open>- 1\<close>, both outside the grid, and the
  sweep reads outside the grid (it faults). On a grid of extent 1 along the Y axis with a
  flagged cell \<open>(ix, 0)\<close>, the neighbour indices along Y are 1 and \<open>- 1\<close>, both outside the
  grid, and the sweep faults as well. When both extents are at least 2, the four
  neighbours of every cell of the grid are inside the grid and the sweep does not fault.
\<close>

theorem sweep_index_bounds:
  fixes T :: "('a::{zero,plus,minus,times,abs,ord}) scalar"
  shows "(rows grid = 1 \<and> \<not> is_circle \<and> 0 \<le> iy \<and> iy < cols grid \<and> msk 0 iy \<longrightarrow>
            ix0_of is_circle (rows grid) 0 = 1 \<and> ix1_of is_circle (rows grid) 0 = - 1
            \<and> \<not> in_range grid 1 iy \<and> \<not> in_range grid (- 1) iy
            \<and> detail_gauss_seidel T grid msk is_circle relaxation = None)
    \<and> (cols grid = 1 \<and> 0 \<le> ix \<and> ix < rows grid \<and> msk ix 0 \<longrightarrow>
            iy0_of 0 = 1 \<and> iy1_of (cols grid) 0 = - 1
            \<and> \<not> in_range grid ix 1 \<and> \<not> in_range grid ix (- 1)
            \<and> detail_gauss_seidel T grid msk is_circle relaxation = None)
    \<and> (2 \<le> rows grid \<and> 2 \<le> cols grid \<longrightarrow>
            (\<forall>jx jy. in_range grid jx jy \<longrightarrow>
               in_range grid (ix0_of is_circle (rows grid) jx) jy
               \<and> in_range grid (ix1_of is_circle (rows grid) jx) jy
               \<and> in_range grid jx (iy0_of jy)
               \<and> in_range grid jx (iy1_of (cols grid) jy))
            \<and> detail_gauss_seidel T grid msk is_circle relaxation \<noteq> None)"
proof (intro conjI impI)
  assume a: "rows grid = 1 \<and> \<not> is_circle \<and> 0 \<le> iy \<and> iy < cols grid \<and> msk 0 iy"
  then show "ix0_of is_circle (rows grid) 0 = 1" "ix1_of is_circle (rows grid) 0 = - 1"
    "\<not> in_range grid 1 iy" "\<not> in_range grid (- 1) iy"
    by (simp_all add: ix0_of_def ix1_of_def in_range_def)
  from a show "detail_gauss_seidel T grid msk is_circle relaxation = None"
    by (intro sweep_None [of grid 0 iy]) (simp_all add: in_range_def ix0_of_def)
next
  assume b: "cols grid = 1 \<and> 0 \<le> ix \<and> ix < rows grid \<and> msk ix 0"
  then show "iy0_of 0 = 1" "iy1_of (cols grid) 0 = - 1"
    "\<not> in_range grid ix 1" "\<not> in_range grid ix (- 1)"
    by (simp_all add: iy0_of_def iy1_of_def in_range_def)
  from b show "detail_gauss_seidel T grid msk is_circle relaxation = None"
    by (intro sweep_None [of grid ix 0]) (simp_all add: in_range_def iy0_of_def)
next
  assume c: "2 \<le> rows grid \<and> 2 \<le> cols grid"
  show "\<forall>jx jy. in_range grid jx jy \<longrightarrow>
               in_range grid (ix0_of is_circle (rows grid) jx) jy
               \<and> in_range grid (ix1_of is_circle (rows grid) jx) jy
               \<and> in_range grid jx (iy0_of jy)
               \<and> in_range grid jx (iy1_of (cols grid) jy)"
  proof (intro allI impI)
    fix jx jy
    assume "in_range grid jx jy"
    then have r: "0 \<le> jx" "jx < rows grid" "0 \<le> jy" "jy < cols grid"
      by (simp_all add: in_range_def)
    from neighbours_in_range [OF r, of is_circle] c r
    show "in_range grid (ix0_of is_circle (rows grid) jx) jy
               \<and> in_range grid (ix1_of is_circle (rows grid) jx) jy
               \<and> in_range grid jx (iy0_of jy)
               \<and> in_range grid jx (iy1_of (cols grid) jy)"
      by (simp add: in_range_def)
  qed
  from c sweep_total [of grid is_circle T msk relaxation]
  show "detail_gauss_seidel T grid msk is_circle relaxation \<noteq> None"
    by auto
qed

lemma sweep_grid1:
  "detail_gauss_seidel fp_scalar grid1 (isNaN_mask fp_scalar grid1) False relaxation = None"
  by (simp add: example_simps grid1_def)

theorem sweep_index_bounds_witness:
  "rows grid1 = 1 \<and> cols grid1 = 1 \<and> (0::int) \<le> 0 \<and> 0 < cols grid1 \<and> 0 < rows grid1
   \<and> isNaN_mask fp_scalar grid1 0 0
   \<and> \<not> in_range grid1 1 0 \<and> \<not> in_range grid1 (- 1) 0
   \<and> \<not> in_range grid1 0 1 \<and> \<not> in_range grid1 0 (- 1)
   \<and> detail_gauss_seidel fp_scalar grid1 (isNaN_mask fp_scalar grid1) False (Fin 1) = None
   \<and> 2 \<le> rows (flat5 0) \<and> 2 \<le> cols (flat5 0)
   \<and> in_range (flat5 0) (ix0_of False (rows (flat5 0)) 0) 4
   \<and> in_range (flat5 0) 0 (iy1_of (cols (flat5 0)) 4)
   \<and> detail_gauss_seidel fp_scalar (flat5 0) center False (Fin 1) \<noteq> None"
proof -
  have h1: "rows grid1 = 1 \<and> \<not> False \<and> (0::int) \<le> 0 \<and> 0 < cols grid1
            \<and> isNaN_mask fp_scalar grid1 0 0"
    and h2: "cols grid1 = 1 \<and> (0::int) \<le> 0 \<and> 0 < rows grid1 \<and> isNaN_mask fp_scalar grid1 0 0"
    by (simp_all add: grid1_def isNaN_mask_def in_range_def fp_scalar_def)
  have h3: "2 \<le> rows (flat5 0) \<and> 2 \<le> cols (flat5 0)" "in_range (flat5 0) 0 4"
    by (simp_all add: flat5_def in_range_def)
  from sweep_index_bounds [of grid1 False 0 "isNaN_mask fp_scalar grid1" fp_scalar "Fin 1" 0] h1 h2
  have a: "\<not> in_range grid1 1 0 \<and> \<not> in_range grid1 (- 1) 0
      \<and> \<not> in_range grid1 0 1 \<and> \<not> in_range grid1 0 (- 1)
      \<and> detail_gauss_seidel fp_scalar grid1 (isNaN_mask fp_scalar grid1) False (Fin 1) = None"
    by blast
  from sweep_index_bounds [of "flat5 0" False 0 center fp_scalar "Fin 1" 0] h3
  have b: "in_range (flat5 0) (ix0_of False (rows (flat5 0)) 0) 4
      \<and> in_range (flat5 0) 0 (iy1_of (cols (flat5 0)) 4)
      \<and> detail_gauss_seidel fp_scalar (flat5 0) center False (Fin 1) \<noteq> None"
    by blast
  from h1 h2 h3 a b show ?thesis by simp
qed

section \<open>The zonal average\<close>

lemma accumulate_line:
  "fold (\<lambda>ix acc. if \<not> msk ix iy then acc_push acc (coeff grid ix iy) else acc) xs a =
     \<lparr>acc_count = acc_count a + length (filter (\<lambda>ix. \<not> msk ix iy) xs),
      acc_sum = foldl (+) (acc_sum a)
                  (map (\<lambda>ix. coeff grid ix iy) (filter (\<lambda>ix. \<not> msk ix iy) xs))\<rparr>"
  by (induction xs arbitrary: a) (simp_all add: acc_push_def)

lemma assign_line:
  "rows (fold (\<lambda>ix g. if msk ix iy then put g ix iy v else g) xs g) = rows g
   \<and> cols (fold (\<lambda>ix g. if msk ix iy then put g ix iy v else g) xs g) = cols g
   \<and> coeff (fold (\<lambda>ix g. if msk ix iy then put g ix iy v else g) xs g) jx jy =
       (if jy = iy \<and> jx \<in> set xs \<and> msk jx iy then v else coeff g jx jy)"
  by (induction xs arbitrary: g) (auto simp: put_def)

lemma zonal_line_cells:
  fixes T :: "('a::{zero,plus,inverse}) scalar"
  shows "rows (zonal_line T msk iy grid) = rows grid"
    "cols (zonal_line T msk iy grid) = cols grid"
    "coeff (zonal_line T msk iy grid) jx jy =
       (if jy = iy \<and> 0 \<le> jx \<and> jx < rows grid \<and> msk jx iy then first_guess_of T msk grid iy
        else coeff grid jx jy)"
proof -
  let ?acc = "fold (\<lambda>ix acc. if \<not> msk ix iy then acc_push acc (coeff grid ix iy) else acc)
                [0 .. rows grid - 1] acc_init"
  have acc: "acc_count ?acc = length (defined_cells msk grid iy)"
    "acc_sum ?acc = foldl (+) 0 (defined_cells msk grid iy)"
    by (simp_all add: accumulate_line acc_init_def defined_cells_def)
  have fg: "(if acc_count ?acc \<noteq> 0 then acc_mean T ?acc else 0) = first_guess_of T msk grid iy"
    by (simp add: acc first_guess_of_def acc_mean_def mean_of_def)
  have z: "zonal_line T msk iy grid =
        fold (\<lambda>ix g. if msk ix iy then put g ix iy (first_guess_of T msk grid iy) else g)
          [0 .. rows grid - 1] grid"
    unfolding zonal_line_def Let_def fg ..
  show "rows (zonal_line T msk iy grid) = rows grid" "cols (zonal_line T msk iy grid) = cols grid"
    "coeff (zonal_line T msk iy grid) jx jy =
       (if jy = iy \<and> 0 \<le> jx \<and> jx < rows grid \<and> msk jx iy then first_guess_of T msk grid iy
        else coeff grid jx jy)"
    unfolding z using assign_line [of msk iy "first_guess_of T msk grid iy" "[0 .. rows grid - 1]" grid jx jy]
    by auto
qed

lemma first_guess_of_cong:
  assumes "rows g = rows h" "\<And>jx. coeff g jx iy = coeff h jx iy"
  shows "first_guess_of T msk g iy = first_guess_of T msk h iy"
  by (simp add: first_guess_of_def defined_cells_def assms)

lemma zonal_lines_cells:
  fixes T :: "('a::{zero,plus,inverse}) scalar"
  assumes "distinct ys"
  shows "rows (fold (zonal_line T msk) ys g) = rows g
   \<and> cols (fold (zonal_line T msk) ys g) = cols g
   \<and> (\<forall>jx jy. coeff (fold (zonal_line T msk) ys g) jx jy =
        (if jy \<in> set ys \<and> 0 \<le> jx \<and> jx < rows g \<and> msk jx jy then first_guess_of T msk g jy
         else coeff g jx jy))"
  using assms
proof (induction ys arbitrary: g)
  case Nil
  show ?case by simp
next
  case (Cons y ys)
  let ?g1 = "zonal_line T msk y g"
  from Cons.prems have d: "distinct ys" "y \<notin> set ys" by simp_all
  note IH = Cons.IH [OF d(1), of ?g1]
  have same: "first_guess_of T msk ?g1 jy = first_guess_of T msk g jy" if "jy \<in> set ys" for jy
  proof (rule first_guess_of_cong)
    show "rows ?g1 = rows g" by (simp add: zonal_line_cells)
    from that d(2) have "jy \<noteq> y" by auto
    then show "coeff ?g1 jx jy = coeff g jx jy" for jx
      by (simp add: zonal_line_cells)
  qed
  show ?case
    using IH d(2) by (auto simp: zonal_line_cells same)
qed

text \<open>
  C7. The zonal-average first guess keeps the shape of the grid and, for every index \<open>iy\<close>
  along the Y axis, gives every flagged cell of the line \<open>iy\<close> the mean of the cells of that
  line (taken along the X axis) that the mask does not flag, or zero when the mask flags
  the whole line; the cells that the mask does not flag keep their values.
\<close>

theorem zonal_average_first_guess:
  fixes T :: "('a::{zero,plus,inverse}) scalar"
  shows "rows (set_zonal_average T grid msk) = rows grid
    \<and> cols (set_zonal_average T grid msk) = cols grid
    \<and> (\<forall>ix iy. coeff (set_zonal_average T grid msk) ix iy =
          (if in_range grid ix iy \<and> msk ix iy
           then (if defined_cells msk grid iy = [] then 0
                 else mean_of T (defined_cells msk grid iy))
           else coeff grid ix iy))"
  using zonal_lines_cells [of "[0 .. cols grid - 1]" T msk grid]
  by (auto simp: set_zonal_average_def in_range_def first_guess_of_def)

theorem zonal_average_first_guess_witness:
  "in_range grid5 2 2 \<and> isNaN_mask fp_scalar grid5 2 2
   \<and> defined_cells (isNaN_mask fp_scalar grid5) grid5 2 = [Fin 1, Fin 1, Fin 1, Fin 1]
   \<and> coeff (set_zonal_average fp_scalar grid5 (isNaN_mask fp_scalar grid5)) 2 2 = Fin 1
   \<and> coeff (set_zonal_average fp_scalar grid5 (isNaN_mask fp_scalar grid5)) 2 3 = Fin 1"
proof -
  have d: "defined_cells (isNaN_mask fp_scalar grid5) grid5 2 = [Fin 1, Fin 1, Fin 1, Fin 1]"
    by (simp add: defined_cells_def isNaN_mask_def in_range_def grid5_def fp_scalar_def upto.simps)
  have m: "mean_of fp_scalar [Fin 1, Fin 1, Fin 1, Fin 1] = Fin 1"
    by (simp add: mean_of_def fp_scalar_def zero_fp_def)
  have r: "in_range grid5 2 2" "in_range grid5 2 3" "isNaN_mask fp_scalar grid5 2 2"
    "\<not> isNaN_mask fp_scalar grid5 2 3" "coeff grid5 2 3 = Fin 1"
    by (simp_all add: isNaN_mask_def in_range_def grid5_def fp_scalar_def)
  from zonal_average_first_guess [of fp_scalar grid5 "isNaN_mask fp_scalar grid5"]
  have "\<forall>ix iy. coeff (set_zonal_average fp_scalar grid5 (isNaN_mask fp_scalar grid5)) ix iy =
          (if in_range grid5 ix iy \<and> isNaN_mask fp_scalar grid5 ix iy
           then (if defined_cells (isNaN_mask fp_scalar grid5) grid5 iy = [] then 0
                 else mean_of fp_scalar (defined_cells (isNaN_mask fp_scalar grid5) grid5 iy))
           else coeff grid5 ix iy)"
    by blast
  from this [rule_format, of 2 2] this [rule_format, of 2 3] d m r show ?thesis
    by simp
qed

lemma foldl_plus_sum_list: "foldl (+) a xs = a + sum_list (xs :: real list)"
  by (induction xs arbitrary: a) simp_all

lemma mean_of_real:
  "mean_of \<lparr>quarter = q, isnan = p, of_count = real\<rparr> xs = sum_list xs / real (length xs)"
  by (simp add: mean_of_def foldl_plus_sum_list)

section \<open>The convergence loop\<close>

lemma zonal_average_shape:
  fixes T :: "('a::{zero,plus,inverse}) scalar"
  shows "rows (set_zonal_average T grid msk) = rows grid
         \<and> cols (set_zonal_average T grid msk) = cols grid"
  using zonal_lines_cells [of "[0 .. cols grid - 1]" T msk grid]
  by (simp add: set_zonal_average_def)

lemma relax_loop:
  fixes T :: "('a::{zero,plus,minus,times,abs,ord}) scalar"
  assumes "2 \<le> rows g \<or> is_circle" "2 \<le> cols g"
  shows "\<exists>n r g'. relax T msk is_circle relaxation epsilon left iteration max_residual g
                    = Some ((iteration + n, r), g')
          \<and> n \<le> left
          \<and> sweeps T msk is_circle relaxation n (g, max_residual) = Some (g', r)
          \<and> (\<forall>k gk rk. 0 < k \<and> k < n
                \<and> sweeps T msk is_circle relaxation k (g, max_residual) = Some (gk, rk)
                \<longrightarrow> \<not> rk < epsilon)
          \<and> (n = left \<or> (0 < n \<and> r < epsilon))"
  using assms
proof (induction left arbitrary: iteration max_residual g)
  case 0
  show ?case by simp
next
  case (Suc left)
  from sweep_total [OF Suc.prems, of T msk relaxation] obtain g1 r1 where
    sw: "detail_gauss_seidel T g msk is_circle relaxation = Some (g1, r1)"
    and shape: "rows g1 = rows g" "cols g1 = cols g"
    by blast
  show ?case
  proof (cases "r1 < epsilon")
    case True
    have "relax T msk is_circle relaxation epsilon (Suc left) iteration max_residual g
            = Some ((iteration + 1, r1), g1)"
      "sweeps T msk is_circle relaxation 1 (g, max_residual) = Some (g1, r1)"
      using sw True by simp_all
    with True show ?thesis
      by (intro exI [of _ 1] exI [of _ r1] exI [of _ g1]) simp
  next
    case False
    from Suc.prems shape have "2 \<le> rows g1 \<or> is_circle" "2 \<le> cols g1"
      by simp_all
    from Suc.IH [OF this, of "iteration + 1" r1] obtain n r g' where
      run: "relax T msk is_circle relaxation epsilon left (iteration + 1) r1 g1
              = Some ((iteration + 1 + n, r), g')"
      and n: "n \<le> left"
      and sws: "sweeps T msk is_circle relaxation n (g1, r1) = Some (g', r)"
      and early: "\<And>k gk rk. 0 < k \<Longrightarrow> k < n \<Longrightarrow>
                    sweeps T msk is_circle relaxation k (g1, r1) = Some (gk, rk) \<Longrightarrow> \<not> rk < epsilon"
      and stop: "n = left \<or> (0 < n \<and> r < epsilon)"
      by blast
    have a: "relax T msk is_circle relaxation epsilon (Suc left) iteration max_residual g
            = Some ((iteration + Suc n, r), g')"
      using sw False run by simp
    have b: "sweeps T msk is_circle relaxation (Suc n) (g, max_residual) = Some (g', r)"
      using sw sws by simp
    have c: "\<not> rk < epsilon"
      if "0 < k" "k < Suc n" "sweeps T msk is_circle relaxation k (g, max_residual) = Some (gk, rk)"
      for k gk rk
    proof (cases k)
      case 0
      with that show ?thesis by simp
    next
      case (Suc k')
      with that sw have s: "sweeps T msk is_circle relaxation k' (g1, r1) = Some (gk, rk)" "k' < n"
        by simp_all
      show ?thesis
      proof (cases "k' = 0")
        case True
        with s False show ?thesis by simp
      next
        case False
        with early [of k' gk rk] s show ?thesis by simp
      qed
    qed
    from a b c n stop show ?thesis
      by (intro exI [of _ "Suc n"] exI [of _ r] exI [of _ g']) auto
  qed
qed

lemma relax_numeral:
  "relax T msk is_circle relaxation epsilon (numeral k) iteration max_residual grid =
     (case detail_gauss_seidel T grid msk is_circle relaxation of
        None \<Rightarrow> None
      | Some (grid', r) \<Rightarrow>
          if r < epsilon then Some ((iteration + 1, r), grid')
          else relax T msk is_circle relaxation epsilon (pred_numeral k) (iteration + 1) r grid')"
  by (simp add: numeral_eq_Suc)

lemma isNaN_mask_grid5: "isNaN_mask fp_scalar grid5 = center"
  by (auto simp: isNaN_mask_def in_range_def grid5_def center_def fp_scalar_def fun_eq_iff)

lemma select_zero_grid5: "select_zero center grid5 = flat5 0"
  by (auto simp: select_zero_def grid5_def center_def flat5_def zero_fp_def fun_eq_iff)

lemma hasNaN_grid5: "hasNaN fp_scalar grid5"
  by (simp add: hasNaN_def grid5_def fp_scalar_def upto.simps)

lemma fill_grid5:
  "fill_gauss_seidel fp_scalar grid5 kZero is_circle 50 (Fin (1 / 1000000)) (Fin 1)
     = Some ((2, Fin 0), flat5 1)"
  by (simp add: fill_gauss_seidel_def hasNaN_grid5 isNaN_mask_grid5 select_zero_grid5
      relax_numeral sweep_flat5 zero_fp_def)

lemma hasNaN_grid1: "hasNaN fp_scalar grid1"
  by (simp add: hasNaN_def grid1_def fp_scalar_def)

lemma fill_grid1:
  "fill_gauss_seidel fp_scalar grid1 kZero False 50 (Fin (1 / 1000000)) (Fin 1) = None"
  by (simp add: fill_gauss_seidel_def hasNaN_grid1 relax_numeral)
    (simp add: example_simps grid1_def)

lemma isNaN_mask_ring2: "isNaN_mask fp_scalar ring2 = (\<lambda>ix iy. ix = 0 \<and> iy = 0)"
  by (auto simp: isNaN_mask_def in_range_def ring2_def fp_scalar_def fun_eq_iff)

lemma select_zero_ring2: "select_zero (\<lambda>ix iy. ix = 0 \<and> iy = 0) ring2 = ring2_after 0"
  by (auto simp: select_zero_def ring2_def ring2_after_def zero_fp_def fun_eq_iff)

lemma hasNaN_ring2: "hasNaN fp_scalar ring2"
  by (simp add: hasNaN_def ring2_def fp_scalar_def upto.simps)

lemma sweep_ring2:
  "detail_gauss_seidel fp_scalar (ring2_after c) (\<lambda>ix iy. ix = 0 \<and> iy = 0) True (Fin 1)
     = Some (ring2_after ((c + 1) / 2), Fin \<bar>(1 - c) / 2\<bar>)"
  by (simp add: example_simps ring2_after_def fun_eq_iff) (simp add: field_simps abs_if)

lemma fill_ring2:
  "fill_gauss_seidel fp_scalar ring2 kZero True 3 (Fin (1 / 1000000)) (Fin 1)
     = Some ((3, Fin (1 / 8)), ring2_after (7 / 8))"
  by (simp add: fill_gauss_seidel_def hasNaN_ring2 isNaN_mask_ring2 select_zero_ring2
      relax_numeral sweep_ring2 zero_fp_def)

text \<open>
  The loop of the fill on the grids on which no sweep reads outside the grid: two columns
  at least, and two rows at least unless the X axis is circular. For such a grid with at
  least one undefined cell, and every first guess, iteration budget, tolerance and
  relaxation factor, the fill returns, without a fault, a pair \<open>(n, r)\<close> and a grid \<open>grid'\<close>
  such that: \<open>n\<close> is at most \<^verbatim>\<open>max_iterations\<close>; \<open>grid'\<close> and \<open>r\<close> are the grid and the
  residual after \<open>n\<close> sweeps from the seeded grid; no sweep before the \<open>n\<close>-th returned a
  residual below \<^verbatim>\<open>epsilon\<close>; and either the budget is used up (\<open>n\<close> is \<^verbatim>\<open>max_iterations\<close>)
  or the \<open>n\<close>-th sweep returned a residual strictly below \<^verbatim>\<open>epsilon\<close>. Using up the budget
  is a result like the other. The example is a circular grid of one line, on which three
  iterations are not enough.
\<close>

theorem fill_convergence_loop:
  fixes T :: "('a::{zero,plus,minus,times,inverse,abs,ord}) scalar"
  assumes "hasNaN T grid" "2 \<le> rows grid \<or> is_circle" "2 \<le> cols grid"
    and "seeded = (case first_guess of kZero \<Rightarrow> select_zero (isNaN_mask T grid) grid
                   | kZonalAverage \<Rightarrow> set_zonal_average T grid (isNaN_mask T grid))"
  shows "\<exists>n r grid'.
           fill_gauss_seidel T grid first_guess is_circle max_iterations epsilon relaxation
             = Some ((n, r), grid')
           \<and> n \<le> max_iterations
           \<and> sweeps T (isNaN_mask T grid) is_circle relaxation n (seeded, 0) = Some (grid', r)
           \<and> (\<forall>k gk rk. 0 < k \<and> k < n
                 \<and> sweeps T (isNaN_mask T grid) is_circle relaxation k (seeded, 0) = Some (gk, rk)
                 \<longrightarrow> \<not> rk < epsilon)
           \<and> (n = max_iterations \<or> (0 < n \<and> r < epsilon))"
proof -
  have "rows seeded = rows grid" "cols seeded = cols grid"
    using zonal_average_shape [of T grid "isNaN_mask T grid"]
    by (auto simp: assms(4) select_zero_def split: FirstGuess.splits)
  with assms(2,3) have "2 \<le> rows seeded \<or> is_circle" "2 \<le> cols seeded"
    by simp_all
  from relax_loop [OF this, of T "isNaN_mask T grid" relaxation epsilon max_iterations 0 0]
  show ?thesis
    using assms(1) by (simp add: fill_gauss_seidel_def assms(4) [symmetric])
qed

theorem fill_convergence_loop_witness:
  "hasNaN fp_scalar ring2 \<and> (2 \<le> rows ring2 \<or> True) \<and> 2 \<le> cols ring2
   \<and> ring2_after 0 = (case kZero of kZero \<Rightarrow> select_zero (isNaN_mask fp_scalar ring2) ring2
                 | kZonalAverage \<Rightarrow> set_zonal_average fp_scalar ring2 (isNaN_mask fp_scalar ring2))
   \<and> (\<exists>n r grid'.
          fill_gauss_seidel fp_scalar ring2 kZero True 3 (Fin (1 / 1000000)) (Fin 1)
            = Some ((n, r), grid')
          \<and> n \<le> 3
          \<and> sweeps fp_scalar (isNaN_mask fp_scalar ring2) True (Fin 1) n (ring2_after 0, 0)
              = Some (grid', r)
          \<and> (n = 3 \<or> (0 < n \<and> r < Fin (1 / 1000000))))
   \<and> fill_gauss_seidel fp_scalar ring2 kZero True 3 (Fin (1 / 1000000)) (Fin 1)
        = Some ((3, Fin (1 / 8)), ring2_after (7 / 8))"
proof -
  have h: "hasNaN fp_scalar ring2" "2 \<le> rows ring2 \<or> True" "2 \<le> cols ring2"
    "ring2_after 0 = (case kZero of kZero \<Rightarrow> select_zero (isNaN_mask fp_scalar ring2) ring2
                 | kZonalAverage \<Rightarrow> set_zonal_average fp_scalar ring2 (isNaN_mask fp_scalar ring2))"
    by (simp_all add: hasNaN_ring2 isNaN_mask_ring2 select_zero_ring2) (simp_all add: ring2_def)
  from fill_convergence_loop [OF h, of 3 "Fin (1 / 1000000)" "Fin 1"] h fill_ring2 show ?thesis
    by blast
qed

text \<open>
  C4. The claim is for every grid with an undefined cell. The loop is the one of the
  claim (the theorem above), but on a grid with a single column, or with a single row and
  an X axis that is not circular, the first sweep reads outside the grid, and what the
  fill returns is not determined. On the grid of a single, undefined cell, with the first
  guess zero, an X axis that is not circular, at most 50 iterations, the tolerance
  \<open>10\<^sup>-\<^sup>6\<close> and the relaxation factor 1.0: the cell \<open>(0, 0)\<close> is flagged; its neighbour
  indices are 1 and \<open>- 1\<close> along X and 1 and \<open>- 1\<close> along Y; none of the four cells
  \<open>(1, 0)\<close>, \<open>(- 1, 0)\<close>, \<open>(0, 1)\<close> and \<open>(0, - 1)\<close> read by the update is inside the grid; the
  first sweep, on the seeded grid, has no defined result, and so has the fill.
\<close>

theorem fill_single_cell_reads_outside:
  "hasNaN fp_scalar grid1
   \<and> isNaN_mask fp_scalar grid1 0 0
   \<and> ix0_of False (rows grid1) 0 = 1 \<and> ix1_of False (rows grid1) 0 = - 1
   \<and> iy0_of 0 = 1 \<and> iy1_of (cols grid1) 0 = - 1
   \<and> \<not> in_range grid1 1 0 \<and> \<not> in_range grid1 (- 1) 0
   \<and> \<not> in_range grid1 0 1 \<and> \<not> in_range grid1 0 (- 1)
   \<and> detail_gauss_seidel fp_scalar (select_zero (isNaN_mask fp_scalar grid1) grid1)
        (isNaN_mask fp_scalar grid1) False (Fin 1) = None
   \<and> fill_gauss_seidel fp_scalar grid1 kZero False 50 (Fin (1 / 1000000)) (Fin 1) = None"
proof -
  have "detail_gauss_seidel fp_scalar (select_zero (isNaN_mask fp_scalar grid1) grid1)
        (isNaN_mask fp_scalar grid1) False (Fin 1) = None"
    by (simp add: example_simps grid1_def)
  then show ?thesis
    by (simp add: hasNaN_grid1 fill_grid1)
      (simp add: grid1_def isNaN_mask_def in_range_def fp_scalar_def ix0_of_def ix1_of_def
        iy0_of_def iy1_of_def)
qed

section \<open>The example of the specification\<close>

text \<open>
  C6. On the 5 by 5 grid whose cells are 1.0 but the undefined middle one, with at most 50
  iterations, the tolerance \<open>10\<^sup>-\<^sup>6\<close>, the relaxation factor 1.0 and the first guess zero,
  the fill returns after 2 iterations (not 1) with the residual 0, and the middle cell is
  1.0 afterwards: the first sweep moves the cell from 0 to 1, a residual of 1, which is
  not below the tolerance; the second sweep leaves it there, a residual of 0.
\<close>

theorem fill_example_two_iterations:
  "fill_gauss_seidel fp_scalar grid5 kZero is_circle 50 (Fin (1 / 1000000)) (Fin 1)
     = Some ((2, Fin 0), flat5 1)
   \<and> coeff (flat5 1) 2 2 = Fin 1
   \<and> Fin 0 < Fin (1 / 1000000)
   \<and> select_zero (isNaN_mask fp_scalar grid5) grid5 = flat5 0
   \<and> detail_gauss_seidel fp_scalar (flat5 0) (isNaN_mask fp_scalar grid5) is_circle (Fin 1)
       = Some (flat5 1, Fin 1)
   \<and> \<not> Fin 1 < Fin (1 / 1000000)
   \<and> detail_gauss_seidel fp_scalar (flat5 1) (isNaN_mask fp_scalar grid5) is_circle (Fin 1)
       = Some (flat5 1, Fin 0)"
  using sweep_flat5 [of 0 is_circle] sweep_flat5 [of 1 is_circle]
  by (simp add: fill_grid5 isNaN_mask_grid5 select_zero_grid5) (simp add: flat5_def)

text \<open>The number of iterations that the fill returns on the example is not 1.\<close>

theorem fill_example_not_one_iteration:
  "map_option (fst \<circ> fst)
     (fill_gauss_seidel fp_scalar grid5 kZero False 50 (Fin (1 / 1000000)) (Fin 1)) \<noteq> Some 1"
  by (simp add: fill_grid5)

section \<open>The LOESS extrapolator\<close>

lemma fold_product:
  "fold (\<lambda>x. fold (f x) ys) xs s = fold (\<lambda>(x, y). f x y) (List.product xs ys) s"
proof (induction xs arbitrary: s)
  case Nil
  show ?case by simp
next
  case (Cons x xs)
  have "fold (\<lambda>(x, y). f x y) (map (Pair x) ys) t = fold (f x) ys t" for t
    by (induction ys arbitrary: t) simp_all
  with Cons show ?case by simp
qed

lemma loess_sums_undefined:
  assumes "list_all (\<lambda>(wx, wy). value_isnan A (grid_value grid wx wy)) (List.product x_frame y_frame)"
  shows "loess_sums A grid nx ny x y x_frame y_frame = (0, 0)"
proof -
  have "fold (\<lambda>(wx, wy) (value, weight).
                 let zi = grid_value grid wx wy
                 in if \<not> value_isnan A zi
                    then (let wi = weight_at A grid nx ny x y wx wy
                          in (value + of_double A (wi * to_double A zi), weight + of_double A wi))
                    else (value, weight)) cells s = s"
    if "list_all (\<lambda>(wx, wy). value_isnan A (grid_value grid wx wy)) cells" for cells s
    using that by (induction cells arbitrary: s) (auto simp: Let_def)
  from this [OF assms] show ?thesis
    by (simp add: loess_sums_def fold_product)
qed

lemmas loess_example_simps =
  loess_def loess_cell_def loess_sums_def weight_at_def sqr_def fp_loess_def loess_example_def
  window_def accumulated_weight_def zero_fp_def one_fp_def Let_def upto.simps

lemma sqrt_quarter: "sqrt (1 / 4) = 1 / 2"
  by (simp add: real_sqrt_divide)

lemma window_example: "window loess_example 2 1 2 0 = [(0, 0), (1, 0), (2, 0), (3, 0), (4, 0)]"
  by (simp add: window_def loess_example_def upto.simps)

lemma defined_example:
  "defined_in loess_example [(0, 0), (1, 0), (2, 0), (3, 0), (4, 0)] = [(0, 0), (1, 0), (3, 0), (4, 0)]"
  by (simp add: defined_in_def loess_example_def)

lemma loess_example_code: "coeff (loess fp_loess loess_example 2 1) 2 0 = NaN"
  by (simp add: loess_example_simps)

lemma loess_example_index:
  "weighted_average (index_distance 2 1 2 0) loess_example (window loess_example 2 1 2 0) = Fin 2"
  unfolding weighted_average_def window_example defined_example
  by (simp add: index_distance_def tri_cube_def sqrt_quarter loess_example_def
      power3_eq_cube power2_eq_square real_sqrt_abs2)

text \<open>
  C8. The claim measures the distances \<open>\<Delta>x\<close> and \<open>\<Delta>y\<close> in grid-index units, and the
  documentation of \<^verbatim>\<open>loess\<close> gives \<^verbatim>\<open>nx\<close> and \<^verbatim>\<open>ny\<close> as numbers of points. The code takes
  differences of axis coordinates and divides them by \<^verbatim>\<open>nx\<close> and \<^verbatim>\<open>ny\<close>. On the example,
  whose points along X are two units apart, with the half-widths 2 and 1: the middle cell
  \<open>(2, 0)\<close> is undefined and its window holds the five cells of the line; for the code the
  cell \<open>(1, 0)\<close>, one point away, is at the distance 2/2 = 1 and has the weight 0 (so has
  \<open>(3, 0)\<close>, and the two other cells are farther away), and the extrapolator leaves the cell
  undefined; with the distances taken between indexes, as the claim has them, the cell
  \<open>(1, 0)\<close> is at the distance 1/2 and has the weight \<open>(1 - 1/8)^3 = 343/512\<close>, and the
  weighted average of the defined cells of the window is 2.
\<close>

theorem loess_distance_in_coordinates:
  "fp_isnan (grid_value loess_example 2 0)
   \<and> window loess_example 2 1 2 0 = [(0, 0), (1, 0), (2, 0), (3, 0), (4, 0)]
   \<and> weight_at fp_loess loess_example 2 1 (coordinate (x_axis loess_example) 2)
        (coordinate (y_axis loess_example) 0) 1 0 = Fin 0
   \<and> tri_cube (index_distance 2 1 2 0 1 0) = 343 / 512
   \<and> coeff (loess fp_loess loess_example 2 1) 2 0 = NaN
   \<and> weighted_average (index_distance 2 1 2 0) loess_example (window loess_example 2 1 2 0) = Fin 2"
proof -
  have a: "weight_at fp_loess loess_example 2 1 (coordinate (x_axis loess_example) 2)
        (coordinate (y_axis loess_example) 0) 1 0 = Fin 0"
    by (simp add: loess_example_simps)
  have b: "tri_cube (index_distance 2 1 2 0 1 0) = 343 / 512"
    by (simp add: index_distance_def tri_cube_def sqrt_quarter power3_eq_cube power2_eq_square
        real_sqrt_abs2)
  have c: "fp_isnan (grid_value loess_example 2 0)"
    by (simp add: loess_example_def)
  show ?thesis
    by (intro conjI a b c window_example loess_example_code loess_example_index)
qed

text \<open>
  C9. For every undefined cell whose accumulated weight is zero, and so for every
  undefined cell whose window holds no defined cell, the LOESS extrapolator writes the
  value of the cell as it was: the result is still NaN, neither a number nor zero,
  whatever the arithmetic of the scalar. (The extrapolator is a total function: there is
  no fault to report.)
\<close>

theorem loess_zero_weight:
  fixes A :: "('a::{zero,plus,inverse}, 'd::{zero,one,plus,minus,times,inverse,ord}) loess_scalar"
  assumes "value_isnan A (grid_value grid ix iy)"
    and "accumulated_weight A grid nx ny ix iy = 0
         \<or> list_all (\<lambda>(wx, wy). value_isnan A (grid_value grid wx wy)) (window grid nx ny ix iy)"
  shows "coeff (loess A grid nx ny) ix iy = grid_value grid ix iy
         \<and> value_isnan A (coeff (loess A grid nx ny) ix iy)"
proof -
  have "accumulated_weight A grid nx ny ix iy = 0"
    using assms(2) loess_sums_undefined [of A grid
        "find_indexes (x_axis grid) (coordinate (x_axis grid) ix) nx"
        "find_indexes (y_axis grid) (coordinate (y_axis grid) iy) ny" nx ny
        "coordinate (x_axis grid) ix" "coordinate (y_axis grid) iy"]
    by (auto simp: accumulated_weight_def window_def)
  then obtain v where "loess_sums A grid nx ny (coordinate (x_axis grid) ix) (coordinate (y_axis grid) iy)
            (find_indexes (x_axis grid) (coordinate (x_axis grid) ix) nx)
            (find_indexes (y_axis grid) (coordinate (y_axis grid) iy) ny) = (v, 0)"
    by (metis accumulated_weight_def prod.collapse)
  with assms(1) show ?thesis
    by (simp add: loess_def loess_cell_def Let_def)
qed

theorem loess_zero_weight_witness:
  "value_isnan fp_loess (grid_value loess_example 2 0)
   \<and> accumulated_weight fp_loess loess_example 2 1 2 0 = 0
   \<and> list_all (\<lambda>(wx, wy). value_isnan fp_loess (grid_value loess_example wx wy))
       (window loess_example 0 0 2 0)
   \<and> coeff (loess fp_loess loess_example 2 1) 2 0 = grid_value loess_example 2 0
   \<and> coeff (loess fp_loess loess_example 0 0) 2 0 = NaN"
proof -
  have h: "value_isnan fp_loess (grid_value loess_example 2 0)" "grid_value loess_example 2 0 = NaN"
    by (simp_all add: loess_example_def fp_loess_def)
  have a: "accumulated_weight fp_loess loess_example 2 1 2 0 = 0"
    by (simp add: loess_example_simps)
  have "window loess_example 0 0 2 0 = [(2, 0)]"
    by (simp add: window_def loess_example_def upto.simps)
  then have b: "list_all (\<lambda>(wx, wy). value_isnan fp_loess (grid_value loess_example wx wy))
                  (window loess_example 0 0 2 0)"
    by (simp add: loess_example_def fp_loess_def)
  from loess_zero_weight [OF h(1) disjI1, OF a] loess_zero_weight [OF h(1) disjI2, OF b] h a b
  show ?thesis
    by simp
qed

section \<open>Bands of the threaded sweep\<close>

lemma shift_bounds:
  assumes "0 < n" "0 \<le> y_size"
  shows "0 \<le> y_size div int n" "int n * (y_size div int n) \<le> y_size"
proof -
  from assms show "0 \<le> y_size div int n"
    by (simp add: pos_imp_zdiv_nonneg_iff)
  have "int n * (y_size div int n) + y_size mod int n = y_size"
    by simp
  moreover from assms(1) have "0 \<le> y_size mod int n"
    by simp
  ultimately show "int n * (y_size div int n) \<le> y_size"
    by linarith
qed

lemma band_bounds:
  assumes "k < n" "0 \<le> y_size"
  shows "0 \<le> y_start_of n y_size k" "y_start_of n y_size k \<le> y_end_of n y_size k"
    "y_end_of n y_size k \<le> y_size"
proof -
  from assms have n: "0 < n" by simp
  note s = shift_bounds [OF n assms(2)]
  show "0 \<le> y_start_of n y_size k"
    using s(1) by (simp add: y_start_of_def)
  have le: "(int k + 1) * (y_size div int n) \<le> int n * (y_size div int n)"
    using assms(1) s(1) by (intro mult_right_mono) simp_all
  have "int k * (y_size div int n) \<le> (int k + 1) * (y_size div int n)"
    using s(1) by (intro mult_right_mono) simp_all
  moreover note le s(2)
  ultimately have "int k * (y_size div int n) \<le> y_size" by linarith
  with \<open>int k * (y_size div int n) \<le> (int k + 1) * (y_size div int n)\<close>
  show "y_start_of n y_size k \<le> y_end_of n y_size k"
    unfolding y_start_of_def y_end_of_def by (cases "k = n - 1") simp_all
  from le s(2) show "y_end_of n y_size k \<le> y_size"
    by (simp add: y_end_of_def)
qed

lemma band_next:
  assumes "Suc k < n"
  shows "y_end_of n y_size k = y_start_of n y_size (Suc k)"
  using assms by (auto simp: y_end_of_def y_start_of_def)

lemma band_start_mono:
  assumes "k \<le> k'" "0 < n" "0 \<le> y_size"
  shows "y_start_of n y_size k \<le> y_start_of n y_size k'"
  using assms shift_bounds(1) [OF assms(2,3)]
  by (simp add: y_start_of_def mult_right_mono)

lemma band_before:
  assumes "k < k'" "k' < n" "0 \<le> y_size"
  shows "y_end_of n y_size k \<le> y_start_of n y_size k'"
proof -
  from assms have "Suc k < n" "Suc k \<le> k'" "0 < n" by simp_all
  with band_next [of k n y_size] band_start_mono [of "Suc k" k' n y_size] assms(3)
  show ?thesis by simp
qed

lemma band_unique:
  assumes "k < n" "k' < n" "0 \<le> y_size"
    and "y_start_of n y_size k \<le> jy" "jy < y_end_of n y_size k"
    and "y_start_of n y_size k' \<le> jy" "jy < y_end_of n y_size k'"
  shows "k = k'"
proof (rule ccontr)
  assume "k \<noteq> k'"
  then consider "k < k'" | "k' < k" by linarith
  then show False
  proof cases
    case 1
    from band_before [OF 1 assms(2,3)] assms(5,6) show False by simp
  next
    case 2
    from band_before [OF 2 assms(1,3)] assms(4,7) show False by simp
  qed
qed

lemma band_cover:
  assumes "0 < n" "0 \<le> jy" "jy < y_size"
  shows "\<exists>k<n. y_start_of n y_size k \<le> jy \<and> jy < y_end_of n y_size k"
proof -
  let ?s = "y_size div int n"
  from assms have Y: "0 \<le> y_size" by simp
  note s = shift_bounds [OF assms(1) Y]
  show ?thesis
  proof (cases "int (n - 1) * ?s \<le> jy")
    case True
    with assms show ?thesis
      by (intro exI [of _ "n - 1"]) (simp add: y_start_of_def y_end_of_def)
  next
    case False
    with assms(2) have spos: "0 < ?s"
      using s(1) by (cases "?s = 0") simp_all
    let ?k = "nat (jy div ?s)"
    have q: "0 \<le> jy div ?s"
      using assms(2) spos by (simp add: pos_imp_zdiv_nonneg_iff)
    have lo: "(jy div ?s) * ?s \<le> jy"
    proof -
      define q m where "q = jy div ?s" and "m = jy mod ?s"
      have "?s * q + m = jy" unfolding q_def m_def by (rule mult_div_mod_eq)
      moreover have "0 \<le> m" unfolding m_def using spos by (rule pos_mod_sign)
      moreover have "q * ?s = ?s * q" by simp
      ultimately show ?thesis unfolding q_def by linarith
    qed
    have hi: "jy < (jy div ?s + 1) * ?s"
    proof -
      define q m where "q = jy div ?s" and "m = jy mod ?s"
      have "?s * q + m = jy" unfolding q_def m_def by (rule mult_div_mod_eq)
      moreover have "m < ?s" unfolding m_def using spos by (rule pos_mod_bound)
      moreover have "(q + 1) * ?s = ?s * q + ?s" by (simp add: algebra_simps)
      ultimately show ?thesis unfolding q_def by linarith
    qed
    have "jy div ?s < int (n - 1)"
    proof (rule ccontr)
      assume "\<not> jy div ?s < int (n - 1)"
      then have "int (n - 1) * ?s \<le> (jy div ?s) * ?s"
        using s(1) by (intro mult_right_mono) simp_all
      with lo False show False by simp
    qed
    with q have k: "?k < n - 1" "int ?k = jy div ?s"
      by simp_all
    with lo hi show ?thesis
      by (intro exI [of _ ?k]) (simp add: y_start_of_def y_end_of_def)
  qed
qed

section \<open>The invariant of the threaded sweep\<close>

lemma invariantD:
  fixes T :: "('a::{zero,plus,minus,times,abs,ord}) scalar"
  assumes "sweep_invariant T msk is_circle relaxation n G G' c"
  shows "rows (shared_grid c) = rows G" "cols (shared_grid c) = cols G"
    "k < n \<Longrightarrow> pc_inside (rows G) (y_start_of n (cols G) k) (y_end_of n (cols G) k) (pc c k)"
    "Suc k < n \<Longrightarrow>
       pipeline c k = published (cols G) (y_end_of n (cols G) k) (done_rows (rows G) (pc c k))"
    "Suc k < n \<Longrightarrow> done_rows (rows G) (pc c (Suc k)) \<le> done_rows (rows G) (pc c k)"
    "Suc k < n \<Longrightarrow> pc c (Suc k) = Visit ix iy \<Longrightarrow> ix < done_rows (rows G) (pc c k)"
    "k < n \<Longrightarrow> y_start_of n (cols G) k \<le> jy \<Longrightarrow> jy < y_end_of n (cols G) k \<Longrightarrow>
       coeff (shared_grid c) jx jy
         = (if past (pc c k) (jx, jy) then coeff G' jx jy else coeff G jx jy)"
    "\<not> (0 \<le> jy \<and> jy < cols G) \<Longrightarrow> coeff (shared_grid c) jx jy = coeff G jx jy"
    "k < n \<Longrightarrow> max_residuals c k
       = maximum_over T msk is_circle relaxation G G'
           (filter (past (pc c k))
              (scan (rows G) (y_start_of n (cols G) k) (y_end_of n (cols G) k)))"
  using assms unfolding sweep_invariant_def by blast+

lemma rows_chain:
  fixes T :: "('a::{zero,plus,minus,times,abs,ord}) scalar"
  assumes "sweep_invariant T msk is_circle relaxation n G G' c" "k' \<le> k" "k < n"
  shows "done_rows (rows G) (pc c k) \<le> done_rows (rows G) (pc c k')"
  using assms(2,3)
proof (induction k)
  case 0
  then show ?case by simp
next
  case (Suc k)
  show ?case
  proof (cases "k' = Suc k")
    case True
    then show ?thesis by simp
  next
    case False
    with Suc.prems have "k' \<le> k" "k < n" by simp_all
    from Suc.IH [OF this] invariantD(5) [OF assms(1) Suc.prems(2)] show ?thesis
      by simp
  qed
qed

lemma visit_chain:
  fixes T :: "('a::{zero,plus,minus,times,abs,ord}) scalar"
  assumes "sweep_invariant T msk is_circle relaxation n G G' c" "k' < k" "k < n"
    and "pc c k = Visit ix iy"
  shows "ix < done_rows (rows G) (pc c k')"
proof -
  from assms(2) obtain j where j: "k = Suc j" "k' \<le> j"
    by (cases k) simp_all
  with assms(3) have "j < n" by simp
  from invariantD(6) [OF assms(1), of j ix iy] j assms(3,4)
  have "ix < done_rows (rows G) (pc c j)" by simp
  with rows_chain [OF assms(1) j(2) \<open>j < n\<close>] show ?thesis by simp
qed

lemma invariant_step:
  fixes T :: "('a::{zero,plus,minus,times,abs,ord}) scalar"
  assumes inv: "sweep_invariant T msk is_circle relaxation n G G' c"
    and k: "k < n" and Y: "0 \<le> cols G"
    and c': "shared_grid c' = g'" "pc c' = (pc c)(k := p')"
      "max_residuals c' = (max_residuals c)(k := m')" "pipeline c' = pl'"
    and shape: "rows g' = rows G" "cols g' = cols G"
    and inside: "pc_inside (rows G) (y_start_of n (cols G) k) (y_end_of n (cols G) k) p'"
    and mono: "done_rows (rows G) (pc c k) \<le> done_rows (rows G) p'"
    and pred: "\<And>j. k = Suc j \<Longrightarrow> done_rows (rows G) p' \<le> done_rows (rows G) (pc c j)
                 \<and> (\<forall>ix iy. p' = Visit ix iy \<longrightarrow> ix < done_rows (rows G) (pc c j))"
    and pipe: "\<And>j. Suc j < n \<Longrightarrow>
                 pl' j = (if j = k then published (cols G) (y_end_of n (cols G) k)
                                         (done_rows (rows G) p')
                          else pipeline c j)"
    and band: "\<And>jx jy. y_start_of n (cols G) k \<le> jy \<Longrightarrow> jy < y_end_of n (cols G) k \<Longrightarrow>
                 coeff g' jx jy = (if past p' (jx, jy) then coeff G' jx jy else coeff G jx jy)"
    and other: "\<And>jx jy. \<not> (y_start_of n (cols G) k \<le> jy \<and> jy < y_end_of n (cols G) k) \<Longrightarrow>
                 coeff g' jx jy = coeff (shared_grid c) jx jy"
    and maxi: "m' = maximum_over T msk is_circle relaxation G G'
                 (filter (past p') (scan (rows G) (y_start_of n (cols G) k) (y_end_of n (cols G) k)))"
  shows "sweep_invariant T msk is_circle relaxation n G G' c'"
  unfolding sweep_invariant_def
proof (intro conjI allI impI)
  show "rows (shared_grid c') = rows G" "cols (shared_grid c') = cols G"
    by (simp_all add: c' shape)
next
  fix j assume "j < n"
  with invariantD(3) [OF inv this] inside
  show "pc_inside (rows G) (y_start_of n (cols G) j) (y_end_of n (cols G) j) (pc c' j)"
    by (simp add: c')
next
  fix j assume j: "Suc j < n"
  with pipe [OF j] invariantD(4) [OF inv j]
  show "pipeline c' j = published (cols G) (y_end_of n (cols G) j) (done_rows (rows G) (pc c' j))"
    by (simp add: c')
next
  fix j assume j: "Suc j < n"
  show "done_rows (rows G) (pc c' (Suc j)) \<le> done_rows (rows G) (pc c' j)"
    using invariantD(5) [OF inv j] mono pred [of j] by (auto simp: c')
next
  fix j ix iy assume j: "Suc j < n" and v: "pc c' (Suc j) = Visit ix iy"
  show "ix < done_rows (rows G) (pc c' j)"
  proof (cases "Suc j = k")
    case True
    with pred [of j] v show ?thesis by (simp add: c')
  next
    case False
    with v have "pc c (Suc j) = Visit ix iy" by (simp add: c')
    from invariantD(6) [OF inv j this] mono show ?thesis
      by (auto simp: c')
  qed
next
  fix j jx jy
  assume j: "j < n" and jy: "y_start_of n (cols G) j \<le> jy \<and> jy < y_end_of n (cols G) j"
  show "coeff (shared_grid c') jx jy
          = (if past (pc c' j) (jx, jy) then coeff G' jx jy else coeff G jx jy)"
  proof (cases "j = k")
    case True
    with band [of jy jx] jy show ?thesis by (simp add: c')
  next
    case False
    with band_unique [OF j k Y] jy
    have "\<not> (y_start_of n (cols G) k \<le> jy \<and> jy < y_end_of n (cols G) k)"
      by blast
    from other [OF this] invariantD(7) [OF inv j, of jy jx] jy False show ?thesis
      by (simp add: c')
  qed
next
  fix jx jy assume out: "\<not> (0 \<le> jy \<and> jy < cols G)"
  with band_bounds [OF k Y]
  have "\<not> (y_start_of n (cols G) k \<le> jy \<and> jy < y_end_of n (cols G) k)"
    by linarith
  from other [OF this] invariantD(8) [OF inv out] show "coeff (shared_grid c') jx jy = coeff G jx jy"
    by (simp add: c')
next
  fix j assume "j < n"
  with invariantD(9) [OF inv this] maxi
  show "max_residuals c' j = maximum_over T msk is_circle relaxation G G'
          (filter (past (pc c' j)) (scan (rows G) (y_start_of n (cols G) j) (y_end_of n (cols G) j)))"
    by (simp add: c')
qed

lemma sequential_cells:
  fixes T :: "('a::{zero,plus,minus,times,abs,ord}) scalar"
  assumes "detail_gauss_seidel T G msk is_circle relaxation = Some (G', r)"
  shows "coeff G' ix iy =
          (if in_range G ix iy \<and> msk ix iy
           then coeff G ix iy
                + residual_in T relaxation is_circle (rows G) (cols G) (seen G G' ix iy) ix iy
           else coeff G ix iy)"
  using sweep_trace [OF assms] by blast

lemma sequential_in_range:
  fixes T :: "('a::{zero,plus,minus,times,abs,ord}) scalar"
  assumes "detail_gauss_seidel T G msk is_circle relaxation = Some (G', r)"
    and "in_range G ix iy" "msk ix iy"
  shows "in_range G (ix0_of is_circle (rows G) ix) iy \<and> in_range G (ix1_of is_circle (rows G) ix) iy
       \<and> in_range G ix (iy0_of iy) \<and> in_range G ix (iy1_of (cols G) iy)"
proof (rule ccontr)
  assume "\<not> ?thesis"
  with assms(2) have "\<not> (0 \<le> ix0_of is_circle (rows G) ix \<and> ix0_of is_circle (rows G) ix < rows G
           \<and> 0 \<le> ix1_of is_circle (rows G) ix \<and> ix1_of is_circle (rows G) ix < rows G
           \<and> 0 \<le> iy0_of iy \<and> iy0_of iy < cols G
           \<and> 0 \<le> iy1_of (cols G) iy \<and> iy1_of (cols G) iy < cols G)"
    by (auto simp: in_range_def)
  from sweep_None [where grid = G and ix = ix and iy = iy and msk = msk and is_circle = is_circle
      and T = T and relaxation = relaxation, OF assms(2,3) this] assms(1)
  show False by simp
qed

lemma sequential_maximum:
  fixes T :: "('a::{zero,plus,minus,times,abs,ord}) scalar"
  assumes "detail_gauss_seidel T G msk is_circle relaxation = Some (G', r)"
  shows "r = maximum_over T msk is_circle relaxation G G' (scan (rows G) 0 (cols G))"
  using sweep_trace [OF assms]
  by (simp add: maximum_over_def residual_of_def [abs_def] case_prod_unfold)

lemma residual_in_cong5:
  assumes "coeff g (ix0_of is_circle x_size ix) iy = coeff h (ix0_of is_circle x_size ix) iy"
    "coeff g (ix1_of is_circle x_size ix) iy = coeff h (ix1_of is_circle x_size ix) iy"
    "coeff g ix (iy0_of iy) = coeff h ix (iy0_of iy)"
    "coeff g ix (iy1_of y_size iy) = coeff h ix (iy1_of y_size iy)"
    "coeff g ix iy = coeff h ix iy"
  shows "residual_in T relaxation is_circle x_size y_size g ix iy
         = residual_in T relaxation is_circle x_size y_size h ix iy"
  by (simp add: residual_in_def assms)

lemma visit_masked:
  fixes T :: "('a::{zero,plus,minus,times,abs,ord}) scalar"
  assumes "in_range g (ix0_of is_circle x_size ix) iy" "in_range g (ix1_of is_circle x_size ix) iy"
    "in_range g ix (iy0_of iy)" "in_range g ix (iy1_of y_size iy)" "in_range g ix iy" "msk ix iy"
  shows "visit T msk is_circle relaxation x_size y_size ix iy (g, m) =
           Some (put g ix iy (coeff g ix iy
                   + residual_in T relaxation is_circle x_size y_size g ix iy),
                 std_max m \<bar>residual_in T relaxation is_circle x_size y_size g ix iy\<bar>)"
  using assms by (simp add: visit_def cell_fill_in_range residual_in_def)

lemma filter_sorted_snoc:
  assumes "sorted_wrt precedes L" "c \<in> set L"
  shows "filter (\<lambda>d. precedes d c \<or> d = c) L = filter (\<lambda>d. precedes d c) L @ [c]"
  using assms
proof (induction L)
  case Nil
  then show ?case by simp
next
  case (Cons a L)
  show ?case
  proof (cases "a = c")
    case True
    with Cons.prems have after: "\<And>d. d \<in> set L \<Longrightarrow> precedes c d"
      by simp
    then have "c \<notin> set L"
      using precedes_irrefl by blast
    with after have "\<And>d. d \<in> set L \<Longrightarrow> \<not> precedes d c \<and> d \<noteq> c"
      using precedes_asym by blast
    then have "filter (\<lambda>d. precedes d c \<or> d = c) L = []" "filter (\<lambda>d. precedes d c) L = []"
      by (simp_all add: filter_empty_conv)
    with True show ?thesis
      by (simp add: precedes_irrefl)
  next
    case False
    with Cons.prems have "c \<in> set L" "sorted_wrt precedes L" "precedes a c"
      by auto
    with Cons.IH show ?thesis by simp
  qed
qed

lemma past_next:
  "past (Visit ix (iy + 1)) d \<longleftrightarrow> precedes d (ix, iy) \<or> d = (ix, iy)"
  by (cases d) (auto simp: precedes_def)

lemma filter_past_snoc:
  assumes "(ix, iy) \<in> set (scan x_size y_start y_end)"
  shows "filter (past (Visit ix (iy + 1))) (scan x_size y_start y_end)
         = filter (past (Visit ix iy)) (scan x_size y_start y_end) @ [(ix, iy)]"
proof -
  have "past (Visit ix (iy + 1)) = (\<lambda>d. precedes d (ix, iy) \<or> d = (ix, iy))"
    "past (Visit ix iy) = (\<lambda>d. precedes d (ix, iy))"
    by (simp_all add: fun_eq_iff past_next del: past.simps) simp
  with filter_sorted_snoc [OF sorted_scan assms] show ?thesis
    by simp
qed

lemma maximum_over_snoc:
  fixes T :: "('a::{zero,plus,minus,times,abs,ord}) scalar"
  shows "maximum_over T msk is_circle relaxation G G' (L @ [c]) =
           (if msk (fst c) (snd c)
            then std_max (maximum_over T msk is_circle relaxation G G' L)
                   (residual_of T relaxation is_circle G G' c)
            else maximum_over T msk is_circle relaxation G G' L)"
  by (simp add: maximum_over_def)

lemma maximum_over_cong:
  fixes T :: "('a::{zero,plus,minus,times,abs,ord}) scalar"
  assumes "\<And>d. d \<in> set L \<Longrightarrow> P d = Q d"
  shows "maximum_over T msk is_circle relaxation G G' (filter P L)
         = maximum_over T msk is_circle relaxation G G' (filter Q L)"
proof -
  from assms have "filter P L = filter Q L"
    by (intro filter_cong) simp_all
  then show ?thesis by simp
qed

lemma read_during_sweep:
  fixes T :: "('a::{zero,plus,minus,times,abs,ord}) scalar"
  assumes inv: "sweep_invariant T msk is_circle relaxation n G G' c"
    and k: "k < n" and Y: "0 \<le> cols G"
    and at: "pc c k = Visit ix iy" "iy < y_end_of n (cols G) k"
    and d: "in_range G jx jy" "jx = ix \<or> jy = iy"
  shows "coeff (shared_grid c) jx jy = coeff (seen G G' ix iy) jx jy"
proof -
  from invariantD(3) [OF inv k] at(1)
  have inside: "0 \<le> ix" "ix < rows G" "y_start_of n (cols G) k \<le> iy"
    by (simp_all add: pc_inside_def)
  from d(1) have jy: "0 \<le> jy" "jy < cols G"
    by (simp_all add: in_range_def)
  from k have "0 < n" by simp
  from band_cover [OF this jy] obtain k' where k': "k' < n"
    and band: "y_start_of n (cols G) k' \<le> jy" "jy < y_end_of n (cols G) k'"
    by blast
  note cell = invariantD(7) [OF inv k' band, of jx]
  consider "k' = k" | "k' < k" | "k < k'" by linarith
  then show ?thesis
  proof cases
    case 1
    with cell at(1) show ?thesis
      by (simp add: coeff_seen)
  next
    case 2
    from band_before [OF 2 k Y] band(2) inside(3) have "jy < iy" by simp
    with d(2) have prec: "precedes (jx, jy) (ix, iy)" and jx: "jx = ix"
      by (simp_all add: precedes_def)
    from visit_chain [OF inv 2 k at(1)] have "ix < done_rows (rows G) (pc c k')" .
    with jx have "past (pc c k') (jx, jy)"
      by (cases "pc c k'") (simp_all add: precedes_def)
    with cell prec show ?thesis
      by (simp add: coeff_seen)
  next
    case 3
    from band_before [OF 3 k' Y] band(1) at(2) have "iy < jy" by simp
    with d(2) have prec: "\<not> precedes (jx, jy) (ix, iy)" and jx: "jx = ix"
      by (simp_all add: precedes_def)
    from 3 have le: "k \<le> k'" by simp
    from rows_chain [OF inv le k'] at(1)
    have rows: "done_rows (rows G) (pc c k') \<le> ix" by simp
    have "\<not> past (pc c k') (jx, jy)"
    proof (cases "pc c k'")
      case (Wait ix')
      with rows jx show ?thesis by simp
    next
      case (Visit ix' iy')
      from visit_chain [OF inv 3 k' Visit] at(1) have "ix' < ix" by simp
      with Visit jx show ?thesis by (simp add: precedes_def)
    next
      case Finished
      with rows inside(2) show ?thesis by simp
    qed
    with cell prec show ?thesis
      by (simp add: coeff_seen)
  qed
qed

lemma step_finish:
  fixes T :: "('a::{zero,plus,minus,times,abs,ord}) scalar"
  assumes seq: "detail_gauss_seidel T G msk is_circle relaxation = Some (G', r)"
    and inv: "sweep_invariant T msk is_circle relaxation n G G' c"
    and k: "k < n" and Y: "0 \<le> cols G"
    and at: "pc c k = Wait ix" "\<not> ix < rows G"
  shows "sweep_invariant T msk is_circle relaxation n G G' (c\<lparr>pc := (pc c)(k := Finished)\<rparr>)"
proof (rule invariant_step [OF inv k Y, where g' = "shared_grid c" and m' = "max_residuals c k"
      and pl' = "pipeline c" and p' = Finished])
  from invariantD(3) [OF inv k] at have ix: "ix = rows G"
    by (simp add: pc_inside_def)
  show "pc_inside (rows G) (y_start_of n (cols G) k) (y_end_of n (cols G) k) Finished"
    by (simp add: pc_inside_def)
  show "done_rows (rows G) (pc c k) \<le> done_rows (rows G) Finished"
    using at(1) ix by simp
  show "done_rows (rows G) Finished \<le> done_rows (rows G) (pc c j)
        \<and> (\<forall>ix iy. Finished = Visit ix iy \<longrightarrow> ix < done_rows (rows G) (pc c j))"
    if "k = Suc j" for j
    using invariantD(5) [OF inv, of j] that k at(1) ix by simp
  show "pipeline c j = (if j = k then published (cols G) (y_end_of n (cols G) k)
                                       (done_rows (rows G) Finished)
                        else pipeline c j)"
    if "Suc j < n" for j
    using invariantD(4) [OF inv that] at(1) ix by simp
  show "coeff (shared_grid c) jx jy
          = (if past Finished (jx, jy) then coeff G' jx jy else coeff G jx jy)"
    if "y_start_of n (cols G) k \<le> jy" "jy < y_end_of n (cols G) k" for jx jy
    using invariantD(7) [OF inv k that, of jx] at(1) ix sequential_cells [OF seq, of jx jy]
    by (simp add: in_range_def)
  show "max_residuals c k = maximum_over T msk is_circle relaxation G G'
          (filter (past Finished) (scan (rows G) (y_start_of n (cols G) k) (y_end_of n (cols G) k)))"
    unfolding invariantD(9) [OF inv k] at(1)
    by (rule maximum_over_cong) (auto simp: set_scan ix)
qed (simp_all add: invariantD(1,2) [OF inv])

lemma step_enter:
  fixes T :: "('a::{zero,plus,minus,times,abs,ord}) scalar"
  assumes inv: "sweep_invariant T msk is_circle relaxation n G G' c"
    and k: "k < n" and Y: "0 \<le> cols G"
    and at: "pc c k = Wait ix" "ix < rows G"
    and go: "\<not> (0 < k \<and> pipeline c (k - 1)
                  < coordinates ix (y_start_of n (cols G) k) (cols G))"
  shows "sweep_invariant T msk is_circle relaxation n G G'
           (c\<lparr>pc := (pc c)(k := Visit ix (y_start_of n (cols G) k))\<rparr>)"
proof (rule invariant_step [OF inv k Y, where g' = "shared_grid c" and m' = "max_residuals c k"
      and pl' = "pipeline c" and p' = "Visit ix (y_start_of n (cols G) k)"])
  from invariantD(3) [OF inv k] at have ix: "0 \<le> ix"
    by (simp add: pc_inside_def)
  note b = band_bounds [OF k Y]
  show "pc_inside (rows G) (y_start_of n (cols G) k) (y_end_of n (cols G) k)
          (Visit ix (y_start_of n (cols G) k))"
    using ix at(2) b by (simp add: pc_inside_def)
  show "done_rows (rows G) (pc c k) \<le> done_rows (rows G) (Visit ix (y_start_of n (cols G) k))"
    using at(1) by simp
  show "done_rows (rows G) (Visit ix (y_start_of n (cols G) k)) \<le> done_rows (rows G) (pc c j)
        \<and> (\<forall>ix' iy. Visit ix (y_start_of n (cols G) k) = Visit ix' iy
              \<longrightarrow> ix' < done_rows (rows G) (pc c j))"
    if j: "k = Suc j" for j
  proof -
    from j k have sj: "Suc j < n" by simp
    from go j have ge: "coordinates ix (y_start_of n (cols G) k) (cols G) \<le> pipeline c j"
      by simp
    have "0 \<le> y_start_of n (cols G) k * cols G"
      using b(1) Y by (rule mult_nonneg_nonneg)
    with ix have pos: "0 \<le> coordinates ix (y_start_of n (cols G) k) (cols G)"
      by (simp add: coordinates_def)
    from invariantD(4) [OF inv sj] band_next [OF sj, of "cols G"] j
    have "pipeline c j = published (cols G) (y_start_of n (cols G) k) (done_rows (rows G) (pc c j))"
      by simp
    with ge pos have "ix < done_rows (rows G) (pc c j)"
      by (auto simp: published_def coordinates_def split: if_splits)
    moreover from invariantD(5) [OF inv sj] j at(1) have "ix \<le> done_rows (rows G) (pc c j)"
      by simp
    ultimately show ?thesis by simp
  qed
  show "pipeline c j = (if j = k then published (cols G) (y_end_of n (cols G) k)
                                       (done_rows (rows G) (Visit ix (y_start_of n (cols G) k)))
                        else pipeline c j)"
    if "Suc j < n" for j
    using invariantD(4) [OF inv that] at(1) by simp
  show "coeff (shared_grid c) jx jy
          = (if past (Visit ix (y_start_of n (cols G) k)) (jx, jy) then coeff G' jx jy
             else coeff G jx jy)"
    if "y_start_of n (cols G) k \<le> jy" "jy < y_end_of n (cols G) k" for jx jy
    using invariantD(7) [OF inv k that, of jx] at(1) that by (auto simp: precedes_def)
  show "max_residuals c k = maximum_over T msk is_circle relaxation G G'
          (filter (past (Visit ix (y_start_of n (cols G) k)))
             (scan (rows G) (y_start_of n (cols G) k) (y_end_of n (cols G) k)))"
    unfolding invariantD(9) [OF inv k] at(1)
    by (rule maximum_over_cong) (auto simp: set_scan precedes_def)
qed (simp_all add: invariantD(1,2) [OF inv])

lemma step_publish:
  fixes T :: "('a::{zero,plus,minus,times,abs,ord}) scalar"
  assumes inv: "sweep_invariant T msk is_circle relaxation n G G' c"
    and k: "k < n" and Y: "0 \<le> cols G"
    and at: "pc c k = Visit ix iy" "\<not> iy < y_end_of n (cols G) k"
  shows "sweep_invariant T msk is_circle relaxation n G G'
           (c\<lparr>pipeline := (if k < n - 1
                             then (pipeline c)(k := coordinates ix (y_end_of n (cols G) k) (cols G))
                             else pipeline c),
               pc := (pc c)(k := Wait (ix + 1))\<rparr>)"
proof (rule invariant_step [OF inv k Y, where g' = "shared_grid c" and m' = "max_residuals c k"
      and pl' = "if k < n - 1
                 then (pipeline c)(k := coordinates ix (y_end_of n (cols G) k) (cols G))
                 else pipeline c"
      and p' = "Wait (ix + 1)"])
  from invariantD(3) [OF inv k] at
  have ix: "0 \<le> ix" "ix < rows G" and iy: "iy = y_end_of n (cols G) k"
    by (simp_all add: pc_inside_def)
  show "pc_inside (rows G) (y_start_of n (cols G) k) (y_end_of n (cols G) k) (Wait (ix + 1))"
    using ix by (simp add: pc_inside_def)
  show "done_rows (rows G) (pc c k) \<le> done_rows (rows G) (Wait (ix + 1))"
    using at(1) by simp
  show "done_rows (rows G) (Wait (ix + 1)) \<le> done_rows (rows G) (pc c j)
        \<and> (\<forall>ix' iy. Wait (ix + 1) = Visit ix' iy \<longrightarrow> ix' < done_rows (rows G) (pc c j))"
    if "k = Suc j" for j
    using invariantD(6) [OF inv, of j ix iy] that k at(1) by simp
  show "(if k < n - 1 then (pipeline c)(k := coordinates ix (y_end_of n (cols G) k) (cols G))
         else pipeline c) j
        = (if j = k then published (cols G) (y_end_of n (cols G) k)
                           (done_rows (rows G) (Wait (ix + 1)))
           else pipeline c j)"
    if "Suc j < n" for j
    using that ix by (auto simp: published_def)
  show "coeff (shared_grid c) jx jy
          = (if past (Wait (ix + 1)) (jx, jy) then coeff G' jx jy else coeff G jx jy)"
    if "y_start_of n (cols G) k \<le> jy" "jy < y_end_of n (cols G) k" for jx jy
    using invariantD(7) [OF inv k that, of jx] at(1) that iy by (auto simp: precedes_def)
  show "max_residuals c k = maximum_over T msk is_circle relaxation G G'
          (filter (past (Wait (ix + 1)))
             (scan (rows G) (y_start_of n (cols G) k) (y_end_of n (cols G) k)))"
    unfolding invariantD(9) [OF inv k] at(1)
    by (rule maximum_over_cong) (auto simp: set_scan precedes_def iy)
qed (simp_all add: invariantD(1,2) [OF inv])

lemma step_visit:
  fixes T :: "('a::{zero,plus,minus,times,abs,ord}) scalar"
  assumes seq: "detail_gauss_seidel T G msk is_circle relaxation = Some (G', r)"
    and inv: "sweep_invariant T msk is_circle relaxation n G G' c"
    and k: "k < n" and Y: "0 \<le> cols G"
    and at: "pc c k = Visit ix iy" "iy < y_end_of n (cols G) k"
  shows "\<exists>g' m'. visit T msk is_circle relaxation (rows G) (cols G) ix iy
                    (shared_grid c, max_residuals c k) = Some (g', m')
         \<and> sweep_invariant T msk is_circle relaxation n G G'
              (c\<lparr>shared_grid := g', max_residuals := (max_residuals c)(k := m'),
                  pc := (pc c)(k := Visit ix (iy + 1))\<rparr>)"
proof -
  let ?g = "shared_grid c" and ?m = "max_residuals c k"
  let ?ys = "y_start_of n (cols G) k" and ?ye = "y_end_of n (cols G) k"
  note shape = invariantD(1,2) [OF inv]
  note b = band_bounds [OF k Y]
  from invariantD(3) [OF inv k] at
  have ix: "0 \<le> ix" "ix < rows G" and iy: "?ys \<le> iy"
    by (simp_all add: pc_inside_def)
  with b at(2) have cell: "in_range G ix iy"
    by (simp add: in_range_def)
  have mem: "(ix, iy) \<in> set (scan (rows G) ?ys ?ye)"
    using ix iy at(2) by (simp add: set_scan)
  have range_eq: "in_range ?g jx jy \<longleftrightarrow> in_range G jx jy" for jx jy
    by (simp add: in_range_def shape)
  have own: "coeff ?g ix iy = coeff G ix iy"
    using invariantD(7) [OF inv k iy at(2), of ix] at(1) by (simp add: precedes_def)
  have band_other: "coeff ?g jx jy
          = (if precedes (jx, jy) (ix, iy) then coeff G' jx jy else coeff G jx jy)"
    if "?ys \<le> jy" "jy < ?ye" for jx jy
    using invariantD(7) [OF inv k that, of jx] at(1) by simp
  have max_old: "?m = maximum_over T msk is_circle relaxation G G'
                        (filter (past (Visit ix iy)) (scan (rows G) ?ys ?ye))"
    using invariantD(9) [OF inv k] at(1) by simp
  show ?thesis
  proof (cases "msk ix iy")
    case False
    have v: "visit T msk is_circle relaxation (rows G) (cols G) ix iy (?g, ?m) = Some (?g, ?m)"
      using False by (simp add: visit_def)
    have same: "coeff G' ix iy = coeff G ix iy"
      using sequential_cells [OF seq, of ix iy] False by simp
    have "sweep_invariant T msk is_circle relaxation n G G'
              (c\<lparr>shared_grid := ?g, max_residuals := (max_residuals c)(k := ?m),
                  pc := (pc c)(k := Visit ix (iy + 1))\<rparr>)"
    proof (rule invariant_step [OF inv k Y, where g' = ?g and m' = ?m
          and pl' = "pipeline c" and p' = "Visit ix (iy + 1)"])
      show "pc_inside (rows G) ?ys ?ye (Visit ix (iy + 1))"
        using ix iy at(2) by (simp add: pc_inside_def)
      show "done_rows (rows G) (pc c k) \<le> done_rows (rows G) (Visit ix (iy + 1))"
        using at(1) by simp
      show "done_rows (rows G) (Visit ix (iy + 1)) \<le> done_rows (rows G) (pc c j)
            \<and> (\<forall>ix' iy'. Visit ix (iy + 1) = Visit ix' iy' \<longrightarrow> ix' < done_rows (rows G) (pc c j))"
        if "k = Suc j" for j
        using invariantD(5,6) [OF inv, of j] that k at(1) by simp
      show "pipeline c j = (if j = k then published (cols G) ?ye
                                           (done_rows (rows G) (Visit ix (iy + 1)))
                            else pipeline c j)"
        if "Suc j < n" for j
        using invariantD(4) [OF inv that] at(1) by simp
      show "coeff ?g jx jy
              = (if past (Visit ix (iy + 1)) (jx, jy) then coeff G' jx jy else coeff G jx jy)"
        if "?ys \<le> jy" "jy < ?ye" for jx jy
        using band_other [OF that, of jx] same by (auto simp: past_next simp del: past.simps)
      show "?m = maximum_over T msk is_circle relaxation G G'
                   (filter (past (Visit ix (iy + 1))) (scan (rows G) ?ys ?ye))"
        using False by (simp add: filter_past_snoc [OF mem] maximum_over_snoc max_old)
    qed (simp_all add: shape)
    with v show ?thesis by blast
  next
    case True
    from sequential_in_range [OF seq cell True]
    have nb: "in_range G (ix0_of is_circle (rows G) ix) iy"
      "in_range G (ix1_of is_circle (rows G) ix) iy"
      "in_range G ix (iy0_of iy)" "in_range G ix (iy1_of (cols G) iy)"
      by simp_all
    let ?res = "residual_in T relaxation is_circle (rows G) (cols G) ?g ix iy"
    let ?g' = "put ?g ix iy (coeff ?g ix iy + ?res)"
    have v: "visit T msk is_circle relaxation (rows G) (cols G) ix iy (?g, ?m)
               = Some (?g', std_max ?m \<bar>?res\<bar>)"
      using nb cell True by (intro visit_masked) (simp_all add: range_eq)
    note read = read_during_sweep [OF inv k Y at]
    have res: "?res = residual_in T relaxation is_circle (rows G) (cols G) (seen G G' ix iy) ix iy"
      by (rule residual_in_cong5) (simp_all add: read nb cell)
    have new: "coeff G' ix iy = coeff G ix iy + ?res"
      using sequential_cells [OF seq, of ix iy] True cell res by simp
    have "sweep_invariant T msk is_circle relaxation n G G'
              (c\<lparr>shared_grid := ?g', max_residuals := (max_residuals c)(k := std_max ?m \<bar>?res\<bar>),
                  pc := (pc c)(k := Visit ix (iy + 1))\<rparr>)"
    proof (rule invariant_step [OF inv k Y, where g' = ?g' and m' = "std_max ?m \<bar>?res\<bar>"
          and pl' = "pipeline c" and p' = "Visit ix (iy + 1)"])
      show "rows ?g' = rows G" "cols ?g' = cols G"
        by (simp_all add: put_def shape)
      show "pc_inside (rows G) ?ys ?ye (Visit ix (iy + 1))"
        using ix iy at(2) by (simp add: pc_inside_def)
      show "done_rows (rows G) (pc c k) \<le> done_rows (rows G) (Visit ix (iy + 1))"
        using at(1) by simp
      show "done_rows (rows G) (Visit ix (iy + 1)) \<le> done_rows (rows G) (pc c j)
            \<and> (\<forall>ix' iy'. Visit ix (iy + 1) = Visit ix' iy' \<longrightarrow> ix' < done_rows (rows G) (pc c j))"
        if "k = Suc j" for j
        using invariantD(5,6) [OF inv, of j] that k at(1) by simp
      show "pipeline c j = (if j = k then published (cols G) ?ye
                                           (done_rows (rows G) (Visit ix (iy + 1)))
                            else pipeline c j)"
        if "Suc j < n" for j
        using invariantD(4) [OF inv that] at(1) by simp
      show "coeff ?g' jx jy
              = (if past (Visit ix (iy + 1)) (jx, jy) then coeff G' jx jy else coeff G jx jy)"
        if "?ys \<le> jy" "jy < ?ye" for jx jy
      proof (cases "(jx, jy) = (ix, iy)")
        case True
        then show ?thesis
          using new own by (simp add: put_def past_next del: past.simps)
      next
        case False
        then have "coeff ?g' jx jy = coeff ?g jx jy"
          by (auto simp: put_def)
        with False band_other [OF that, of jx] show ?thesis
          by (auto simp: past_next simp del: past.simps)
      qed
      show "coeff ?g' jx jy = coeff ?g jx jy" if "\<not> (?ys \<le> jy \<and> jy < ?ye)" for jx jy
        using that iy at(2) by (auto simp: put_def)
      show "std_max ?m \<bar>?res\<bar> = maximum_over T msk is_circle relaxation G G'
                   (filter (past (Visit ix (iy + 1))) (scan (rows G) ?ys ?ye))"
        using True by (simp add: filter_past_snoc [OF mem] maximum_over_snoc max_old
            residual_of_def res)
    qed simp_all
    with v show ?thesis by blast
  qed
qed

lemma step_invariant:
  fixes T :: "('a::{zero,plus,minus,times,abs,ord}) scalar"
  assumes seq: "detail_gauss_seidel T G msk is_circle relaxation = Some (G', r)"
    and inv: "sweep_invariant T msk is_circle relaxation n G G' c"
    and Y: "0 \<le> cols G"
  shows "\<exists>c'. thread_step T msk is_circle relaxation (rows G) (cols G) n k c = Some c'
              \<and> sweep_invariant T msk is_circle relaxation n G G' c'"
proof (cases "n \<le> k")
  case True
  with inv show ?thesis by (simp add: thread_step_def)
next
  case False
  then have k: "k < n" by simp
  show ?thesis
  proof (cases "pc c k")
    case Finished
    with inv k show ?thesis by (simp add: thread_step_def)
  next
    case (Wait ix)
    show ?thesis
    proof (cases "ix < rows G")
      case False
      from step_finish [OF seq inv k Y Wait False] Wait False k show ?thesis
        by (simp add: thread_step_def Let_def)
    next
      case True
      show ?thesis
      proof (cases "0 < k \<and> pipeline c (k - 1)
                      < coordinates ix (y_start_of n (cols G) k) (cols G)")
        case True
        with inv Wait \<open>ix < rows G\<close> k show ?thesis
          by (simp add: thread_step_def Let_def)
      next
        case False
        from step_enter [OF inv k Y Wait True False] Wait True False k show ?thesis
          by (auto simp: thread_step_def Let_def)
      qed
    qed
  next
    case (Visit ix iy)
    show ?thesis
    proof (cases "iy < y_end_of n (cols G) k")
      case True
      from step_visit [OF seq inv k Y Visit True] Visit True k show ?thesis
        by (auto simp: thread_step_def Let_def)
    next
      case False
      from step_publish [OF inv k Y Visit False] Visit False k show ?thesis
        by (simp add: thread_step_def Let_def)
    qed
  qed
qed

lemma run_invariant:
  fixes T :: "('a::{zero,plus,minus,times,abs,ord}) scalar"
  assumes seq: "detail_gauss_seidel T G msk is_circle relaxation = Some (G', r)"
    and Y: "0 \<le> cols G"
    and inv: "sweep_invariant T msk is_circle relaxation n G G' c"
  shows "\<exists>c'. run T msk is_circle relaxation (rows G) (cols G) n schedule c = Some c'
              \<and> sweep_invariant T msk is_circle relaxation n G G' c'"
  using inv
proof (induction schedule arbitrary: c)
  case Nil
  then show ?case by simp
next
  case (Cons k schedule)
  from step_invariant [OF seq Cons.prems Y, of k] obtain c1 where
    "thread_step T msk is_circle relaxation (rows G) (cols G) n k c = Some c1"
    "sweep_invariant T msk is_circle relaxation n G G' c1"
    by blast
  with Cons.IH [of c1] show ?case by simp
qed

lemma initial_invariant:
  fixes T :: "('a::{zero,plus,minus,times,abs,ord}) scalar"
  assumes seq: "detail_gauss_seidel T G msk is_circle relaxation = Some (G', r)"
    and X: "0 \<le> rows G"
  shows "sweep_invariant T msk is_circle relaxation n G G' (initial G)"
  unfolding sweep_invariant_def
proof (intro conjI allI impI)
  fix k jx jy
  show "coeff (shared_grid (initial G)) jx jy
          = (if past (pc (initial G) k) (jx, jy) then coeff G' jx jy else coeff G jx jy)"
    using sequential_cells [OF seq, of jx jy] by (simp add: initial_def in_range_def)
next
  fix k
  have "filter (past (Wait 0)) (scan (rows G) (y_start_of n (cols G) k) (y_end_of n (cols G) k)) = []"
    by (auto simp: filter_empty_conv set_scan)
  then show "max_residuals (initial G) k = maximum_over T msk is_circle relaxation G G'
          (filter (past (pc (initial G) k))
             (scan (rows G) (y_start_of n (cols G) k) (y_end_of n (cols G) k)))"
    by (simp add: initial_def maximum_over_def)
qed (simp_all add: initial_def pc_inside_def published_def X)

section \<open>The result of the threaded sweep\<close>

lemma joined_iff: "joined n c \<longleftrightarrow> (\<forall>k<n. pc c k = Finished)"
  by (auto simp: joined_def list_all_iff)

lemma joined_grid:
  fixes T :: "('a::{zero,plus,minus,times,abs,ord}) scalar"
  assumes seq: "detail_gauss_seidel T G msk is_circle relaxation = Some (G', r)"
    and inv: "sweep_invariant T msk is_circle relaxation n G G' c"
    and n: "0 < n" and j: "joined n c"
  shows "shared_grid c = G'"
proof -
  have "coeff (shared_grid c) jx jy = coeff G' jx jy" for jx jy
  proof (cases "0 \<le> jy \<and> jy < cols G")
    case True
    with band_cover [OF n, of jy "cols G"] obtain k where k: "k < n"
      and band: "y_start_of n (cols G) k \<le> jy" "jy < y_end_of n (cols G) k"
      by blast
    from j k have "pc c k = Finished" by (simp add: joined_iff)
    with invariantD(7) [OF inv k band, of jx] show ?thesis by simp
  next
    case False
    with invariantD(8) [OF inv False, of jx] sequential_cells [OF seq, of jx jy] show ?thesis
      by (auto simp: in_range_def)
  qed
  then have "coeff (shared_grid c) = coeff G'"
    by (simp add: fun_eq_iff)
  moreover from sweep_trace [OF seq] invariantD(1,2) [OF inv]
  have "rows (shared_grid c) = rows G'" "cols (shared_grid c) = cols G'"
    by simp_all
  ultimately show ?thesis
    by (intro matrix.equality) simp_all
qed

lemma joined_maximum:
  fixes T :: "('a::{zero,plus,minus,times,abs,ord}) scalar"
  assumes inv: "sweep_invariant T msk is_circle relaxation n G G' c"
    and k: "k < n" and j: "joined n c"
  shows "max_residuals c k = maximum_over T msk is_circle relaxation G G'
           (scan (rows G) (y_start_of n (cols G) k) (y_end_of n (cols G) k))"
proof -
  from j k have "pc c k = Finished" by (simp add: joined_iff)
  with invariantD(9) [OF inv k] show ?thesis by simp
qed

section \<open>The largest of the thread maxima\<close>

lemma orderedD:
  assumes "ordered_numbers V"
  shows "x \<in> V \<Longrightarrow> \<not> x < x"
    "x \<in> V \<Longrightarrow> y \<in> V \<Longrightarrow> z \<in> V \<Longrightarrow> x < y \<Longrightarrow> y < z \<Longrightarrow> x < z"
    "x \<in> V \<Longrightarrow> y \<in> V \<Longrightarrow> x < y \<or> x = y \<or> y < x"
    "x \<in> V \<Longrightarrow> y \<notin> V \<Longrightarrow> \<not> x < y"
proof -
  note all = assms [unfolded ordered_numbers_def]
  note a = all [THEN conjunct1, rule_format]
  note b = all [THEN conjunct2, THEN conjunct1, rule_format]
  note c = all [THEN conjunct2, THEN conjunct2, THEN conjunct1, rule_format]
  note d = all [THEN conjunct2, THEN conjunct2, THEN conjunct2, rule_format]
  show "x \<in> V \<Longrightarrow> \<not> x < x"
    by (rule a)
  show "x \<in> V \<Longrightarrow> y \<in> V \<Longrightarrow> z \<in> V \<Longrightarrow> x < y \<Longrightarrow> y < z \<Longrightarrow> x < z"
    by (rule b)
  show "x \<in> V \<Longrightarrow> y \<in> V \<Longrightarrow> x < y \<or> x = y \<or> y < x"
    by (rule c)
  show "x \<in> V \<Longrightarrow> y \<notin> V \<Longrightarrow> \<not> x < y"
    by (rule d)
qed

lemma greatest_ofI:
  assumes "m \<in> V" "m \<in> S" "\<And>y. y \<in> S \<Longrightarrow> y \<in> V \<Longrightarrow> \<not> m < y"
  shows "greatest_of V S m"
  unfolding greatest_of_def using assms by (intro conjI ballI impI)

lemma greatest_ofD:
  assumes "greatest_of V S m"
  shows "m \<in> V" "m \<in> S" "y \<in> S \<Longrightarrow> y \<in> V \<Longrightarrow> \<not> m < y"
proof -
  note all = assms [unfolded greatest_of_def]
  show "m \<in> V" by (rule all [THEN conjunct1])
  show "m \<in> S" by (rule all [THEN conjunct2, THEN conjunct1])
  show "y \<in> S \<Longrightarrow> y \<in> V \<Longrightarrow> \<not> m < y"
    by (rule all [THEN conjunct2, THEN conjunct2, rule_format])
qed

lemma greatest_foldl:
  assumes V: "ordered_numbers V" and a: "a \<in> V"
  shows "greatest_of V (insert a (set L)) (foldl std_max a L)"
  using a
proof (induction L arbitrary: a)
  case Nil
  show ?case
  proof (rule greatest_ofI)
    show "foldl std_max a [] \<in> V" using Nil by simp
    show "foldl std_max a [] \<in> insert a (set [])" by simp
    fix y assume "y \<in> insert a (set [])" "y \<in> V"
    then have "y = a" by simp
    with orderedD(1) [OF V Nil] show "\<not> foldl std_max a [] < y" by simp
  qed
next
  case (Cons x L)
  show ?case
  proof (cases "a < x")
    case True
    have x: "x \<in> V"
    proof (rule ccontr)
      assume "x \<notin> V"
      from orderedD(4) [OF V Cons.prems this] True show False by simp
    qed
    let ?m = "foldl std_max x L"
    note g = greatest_ofD [OF Cons.IH [OF x]]
    have step: "foldl std_max a (x # L) = ?m"
      using True by (simp add: std_max_def)
    have below: "\<not> ?m < a"
    proof
      assume "?m < a"
      from orderedD(2) [OF V g(1) Cons.prems x this True] have "?m < x" .
      moreover have "\<not> ?m < x" by (rule g(3)) (simp, rule x)
      ultimately show False by simp
    qed
    show ?thesis
      unfolding step
    proof (rule greatest_ofI)
      show "?m \<in> V" by (rule g(1))
      from g(2) show "?m \<in> insert a (set (x # L))" by simp
      fix y assume "y \<in> insert a (set (x # L))" and yV: "y \<in> V"
      then consider "y = a" | "y \<in> insert x (set L)" by auto
      then show "\<not> ?m < y"
      proof cases
        case 1
        with below show ?thesis by simp
      next
        case 2
        from g(3) [OF this yV] show ?thesis .
      qed
    qed
  next
    case False
    let ?m = "foldl std_max a L"
    note g = greatest_ofD [OF Cons.IH [OF Cons.prems]]
    have step: "foldl std_max a (x # L) = ?m"
      using False by (simp add: std_max_def)
    have below: "\<not> ?m < x" if x: "x \<in> V"
    proof
      assume lt: "?m < x"
      have "\<not> ?m < a" by (rule g(3)) (simp, rule Cons.prems)
      with orderedD(3) [OF V Cons.prems g(1)] have "a < ?m \<or> a = ?m"
        by blast
      then have "a < x"
      proof
        assume "a < ?m"
        from orderedD(2) [OF V Cons.prems g(1) x this lt] show ?thesis .
      next
        assume "a = ?m"
        then have "?m = a" ..
        from lt [unfolded this] show ?thesis .
      qed
      with False show False by simp
    qed
    show ?thesis
      unfolding step
    proof (rule greatest_ofI)
      show "?m \<in> V" by (rule g(1))
      from g(2) show "?m \<in> insert a (set (x # L))" by auto
      fix y assume "y \<in> insert a (set (x # L))" and yV: "y \<in> V"
      then consider "y = x" | "y \<in> insert a (set L)" by auto
      then show "\<not> ?m < y"
      proof cases
        case 1
        with below yV show ?thesis by simp
      next
        case 2
        from g(3) [OF this yV] show ?thesis .
      qed
    qed
  qed
qed

lemma greatest_unique:
  assumes V: "ordered_numbers V" and m: "greatest_of V S m" and m': "greatest_of V S m'"
  shows "m = m'"
proof -
  note g = greatest_ofD [OF m] and g' = greatest_ofD [OF m']
  from g(3) [OF g'(2) g'(1)] g'(3) [OF g(2) g(1)] orderedD(3) [OF V g(1) g'(1)]
  show ?thesis by blast
qed

lemma greatest_of_greatest:
  assumes V: "ordered_numbers V"
    and parts: "\<And>k. k \<in> K \<Longrightarrow> greatest_of V (S k) (m k)"
    and top: "greatest_of V (m ` K) t"
  shows "greatest_of V (\<Union>k\<in>K. S k) t"
proof (rule greatest_ofI)
  note t = greatest_ofD [OF top]
  show "t \<in> V" by (rule t(1))
  from t(2) obtain k0 where k0: "k0 \<in> K" "t = m k0"
    by blast
  from greatest_ofD(2) [OF parts [OF k0(1)]] k0 show "t \<in> (\<Union>k\<in>K. S k)"
    by blast
  fix y assume "y \<in> (\<Union>k\<in>K. S k)" and yV: "y \<in> V"
  then obtain k where k: "k \<in> K" and y: "y \<in> S k"
    by blast
  note g = greatest_ofD [OF parts [OF k]]
  have mk: "m k \<in> m ` K" using k by simp
  show "\<not> t < y"
  proof
    assume lt: "t < y"
    from t(3) [OF mk g(1)] orderedD(3) [OF V t(1) g(1)] have "m k < t \<or> m k = t"
      by blast
    then have "m k < y"
    proof
      assume "m k < t"
      from orderedD(2) [OF V g(1) t(1) yV this lt] show ?thesis .
    next
      assume "m k = t"
      then have "t = m k" ..
      from lt [unfolded this] show ?thesis .
    qed
    with g(3) [OF y yV] show False by simp
  qed
qed

lemma scan_bands:
  assumes "0 < n" "0 \<le> y_size"
  shows "set (scan x_size 0 y_size)
         = (\<Union>k\<in>{..<n}. set (scan x_size (y_start_of n y_size k) (y_end_of n y_size k)))"
proof (intro set_eqI iffI)
  fix c assume "c \<in> set (scan x_size 0 y_size)"
  then have c: "0 \<le> fst c" "fst c < x_size" "0 \<le> snd c" "snd c < y_size"
    by (auto simp: set_scan)
  from band_cover [OF assms(1) c(3,4)] c(1,2)
  show "c \<in> (\<Union>k\<in>{..<n}. set (scan x_size (y_start_of n y_size k) (y_end_of n y_size k)))"
    by (cases c) (auto simp: set_scan)
next
  fix c assume "c \<in> (\<Union>k\<in>{..<n}. set (scan x_size (y_start_of n y_size k) (y_end_of n y_size k)))"
  then obtain k where k: "k < n"
    and c: "c \<in> set (scan x_size (y_start_of n y_size k) (y_end_of n y_size k))"
    by blast
  from band_bounds [OF k assms(2)] c show "c \<in> set (scan x_size 0 y_size)"
    by (cases c) (auto simp: set_scan)
qed

lemma maximum_over_greatest:
  fixes T :: "('a::{zero,plus,minus,times,abs,ord}) scalar"
  assumes "ordered_numbers (V :: 'a set)" "0 \<in> V"
  shows "greatest_of V
           (insert 0 (residual_of T relaxation is_circle G G' ` {c \<in> set L. msk (fst c) (snd c)}))
           (maximum_over T msk is_circle relaxation G G' L)"
  using greatest_foldl [OF assms, of "map (residual_of T relaxation is_circle G G')
      (filter (\<lambda>c. msk (fst c) (snd c)) L)"]
  by (simp add: maximum_over_def)

lemma largest_thread_maximum:
  fixes T :: "('a::{zero,plus,minus,times,abs,ord}) scalar"
  assumes V: "ordered_numbers (V :: 'a set)" "0 \<in> V" and n: "0 < n" and Y: "0 \<le> cols G"
  shows "max_element
           (map (\<lambda>k. maximum_over T msk is_circle relaxation G G'
                        (scan (rows G) (y_start_of n (cols G) k) (y_end_of n (cols G) k)))
              [0 ..< n])
         = Some (maximum_over T msk is_circle relaxation G G' (scan (rows G) 0 (cols G)))"
proof -
  let ?f = "residual_of T relaxation is_circle G G'"
  let ?band = "\<lambda>k. scan (rows G) (y_start_of n (cols G) k) (y_end_of n (cols G) k)"
  let ?m = "\<lambda>k. maximum_over T msk is_circle relaxation G G' (?band k)"
  let ?S = "\<lambda>k. insert 0 (?f ` {c \<in> set (?band k). msk (fst c) (snd c)})"
  let ?t = "foldl std_max (?m 0) (map ?m [Suc 0 ..< n])"
  have parts: "greatest_of V (?S k) (?m k)" for k
    by (rule maximum_over_greatest [OF V])
  then have m0: "?m 0 \<in> V"
    unfolding greatest_of_def by blast
  from n have upt: "[0 ..< n] = 0 # [Suc 0 ..< n]"
    by (simp add: upt_conv_Cons)
  have "{..<n} = insert 0 {Suc 0 ..< n}"
    using n by auto
  then have "insert (?m 0) (set (map ?m [Suc 0 ..< n])) = ?m ` {..<n}"
    by simp
  with greatest_foldl [OF V(1) m0, of "map ?m [Suc 0 ..< n]"]
  have "greatest_of V (?m ` {..<n}) ?t"
    by simp
  from greatest_of_greatest [OF V(1) parts this]
  have "greatest_of V (\<Union>k\<in>{..<n}. ?S k) ?t"
    by simp
  moreover have "(\<Union>k\<in>{..<n}. ?S k)
       = insert 0 (?f ` {c \<in> set (scan (rows G) 0 (cols G)). msk (fst c) (snd c)})"
    using n unfolding scan_bands [OF n Y, of "rows G"] by auto
  ultimately have "greatest_of V
       (insert 0 (?f ` {c \<in> set (scan (rows G) 0 (cols G)). msk (fst c) (snd c)})) ?t"
    by simp
  from greatest_unique [OF V(1) this maximum_over_greatest [OF V]]
  show ?thesis
    by (simp add: upt)
qed

section \<open>Progress of the threaded sweep\<close>

lemma step_pc:
  fixes T :: "('a::{zero,plus,minus,times,abs,ord}) scalar"
  assumes "thread_step T msk is_circle relaxation x_size y_size n k c = Some c'" "k < n"
  shows "pc c' = (pc c)(k := next_pc x_size y_size n k c)"
  using assms
  by (auto simp: thread_step_def next_pc_def Let_def split: pc.splits option.splits if_splits)

lemma steps_left_next:
  assumes "pc c k \<noteq> Finished"
    and "\<And>ix. pc c k = Wait ix \<Longrightarrow> ix < x_size \<Longrightarrow>
           \<not> (0 < k \<and> pipeline c (k - 1) < coordinates ix (y_start_of n y_size k) y_size)"
  shows "steps_left x_size (y_start_of n y_size k) (y_end_of n y_size k) (next_pc x_size y_size n k c)
         < steps_left x_size (y_start_of n y_size k) (y_end_of n y_size k) (pc c k)"
proof (cases "pc c k")
  case Finished
  with assms(1) show ?thesis by simp
next
  case (Wait ix)
  show ?thesis
  proof (cases "ix < x_size")
    case False
    with Wait show ?thesis by (simp add: next_pc_def)
  next
    case True
    then have "nat (x_size - ix) = Suc (nat (x_size - ix - 1))"
      by simp
    with Wait True assms(2) [OF Wait True] show ?thesis
      by (simp add: next_pc_def)
  qed
next
  case (Visit ix iy)
  show ?thesis
  proof (cases "iy < y_end_of n y_size k")
    case True
    then have "nat (y_end_of n y_size k - (iy + 1)) < nat (y_end_of n y_size k - iy)"
      by simp
    with Visit True show ?thesis by (simp add: next_pc_def)
  next
    case False
    have e: "x_size - (ix + 1) = x_size - ix - 1" by arith
    from Visit False show ?thesis by (simp add: next_pc_def e)
  qed
qed

lemma first_unfinished_enters:
  fixes T :: "('a::{zero,plus,minus,times,abs,ord}) scalar"
  assumes inv: "sweep_invariant T msk is_circle relaxation n G G' c"
    and k: "k < n" and Y: "0 \<le> cols G"
    and before: "\<And>j. j < k \<Longrightarrow> pc c j = Finished"
    and at: "pc c k = Wait ix" "ix < rows G"
  shows "\<not> (0 < k \<and> pipeline c (k - 1) < coordinates ix (y_start_of n (cols G) k) (cols G))"
proof
  assume blocked: "0 < k \<and> pipeline c (k - 1) < coordinates ix (y_start_of n (cols G) k) (cols G)"
  then obtain j where j: "k = Suc j" by (cases k) simp_all
  with k have sj: "Suc j < n" by simp
  from before [of j] j have fin: "pc c j = Finished" by simp
  from invariantD(3) [OF inv k] at(1) have ix: "0 \<le> ix"
    by (simp add: pc_inside_def)
  from invariantD(4) [OF inv sj] fin band_next [OF sj, of "cols G"] j ix at(2)
  have "pipeline c j = coordinates (rows G - 1) (y_start_of n (cols G) k) (cols G)"
    by (simp add: published_def)
  with blocked j at(2) show False
    by (simp add: coordinates_def)
qed

lemma steps_to_go_less:
  assumes "k < n" "pc c' = (pc c)(k := p')"
    and "steps_left x_size (y_start_of n y_size k) (y_end_of n y_size k) p'
         < steps_left x_size (y_start_of n y_size k) (y_end_of n y_size k) (pc c k)"
  shows "steps_to_go x_size y_size n c' < steps_to_go x_size y_size n c"
proof -
  let ?f = "\<lambda>c k. steps_left x_size (y_start_of n y_size k) (y_end_of n y_size k) (pc c k)"
  from assms(1) have mem: "k \<in> {..<n}" by simp
  have split: "sum (?f c) {..<n} = ?f c k + sum (?f c) ({..<n} - {k})"
    by (rule sum.remove [OF _ mem]) simp
  have split': "sum (?f c') {..<n} = ?f c' k + sum (?f c') ({..<n} - {k})"
    by (rule sum.remove [OF _ mem]) simp
  have "sum (?f c') ({..<n} - {k}) = sum (?f c) ({..<n} - {k})"
    by (rule sum.cong) (simp_all add: assms(2))
  with assms(2,3) show ?thesis
    unfolding steps_to_go_def split split' by simp
qed

lemma progress:
  fixes T :: "('a::{zero,plus,minus,times,abs,ord}) scalar"
  assumes seq: "detail_gauss_seidel T G msk is_circle relaxation = Some (G', r)"
    and inv: "sweep_invariant T msk is_circle relaxation n G G' c"
    and Y: "0 \<le> cols G"
    and running: "\<not> joined n c"
  shows "\<exists>k c'. thread_step T msk is_circle relaxation (rows G) (cols G) n k c = Some c'
           \<and> sweep_invariant T msk is_circle relaxation n G G' c'
           \<and> steps_to_go (rows G) (cols G) n c' < steps_to_go (rows G) (cols G) n c"
proof -
  define k where "k = (LEAST k. k < n \<and> pc c k \<noteq> Finished)"
  from running have ex: "\<exists>k. k < n \<and> pc c k \<noteq> Finished"
    by (auto simp: joined_iff)
  from LeastI_ex [OF ex] have k: "k < n" "pc c k \<noteq> Finished"
    unfolding k_def by simp_all
  have before: "pc c j = Finished" if "j < k" for j
  proof (rule ccontr)
    assume "pc c j \<noteq> Finished"
    with that k(1) have "j < n \<and> pc c j \<noteq> Finished" by simp
    from not_less_Least [OF that [unfolded k_def]] this show False by simp
  qed
  from step_invariant [OF seq inv Y, of k] obtain c' where
    step: "thread_step T msk is_circle relaxation (rows G) (cols G) n k c = Some c'"
    and inv': "sweep_invariant T msk is_circle relaxation n G G' c'"
    by blast
  note pc' = step_pc [OF step k(1)]
  have "steps_left (rows G) (y_start_of n (cols G) k) (y_end_of n (cols G) k)
          (next_pc (rows G) (cols G) n k c)
        < steps_left (rows G) (y_start_of n (cols G) k) (y_end_of n (cols G) k) (pc c k)"
    using k(2) first_unfinished_enters [OF inv k(1) Y before] by (rule steps_left_next)
  from steps_to_go_less [OF k(1) pc' this] step inv' show ?thesis
    by blast
qed

lemma run_append:
  fixes T :: "('a::{zero,plus,minus,times,abs,ord}) scalar"
  shows "run T msk is_circle relaxation x_size y_size n (s1 @ s2) c =
           (case run T msk is_circle relaxation x_size y_size n s1 c of
              None \<Rightarrow> None
            | Some c' \<Rightarrow> run T msk is_circle relaxation x_size y_size n s2 c')"
  by (induction s1 arbitrary: c) (auto split: option.splits)

lemma completion:
  fixes T :: "('a::{zero,plus,minus,times,abs,ord}) scalar"
  assumes seq: "detail_gauss_seidel T G msk is_circle relaxation = Some (G', r)"
    and Y: "0 \<le> cols G"
    and inv: "sweep_invariant T msk is_circle relaxation n G G' c"
  shows "\<exists>schedule c'. run T msk is_circle relaxation (rows G) (cols G) n schedule c = Some c'
           \<and> sweep_invariant T msk is_circle relaxation n G G' c' \<and> joined n c'"
  using inv
proof (induction "steps_to_go (rows G) (cols G) n c" arbitrary: c rule: less_induct)
  case less
  show ?case
  proof (cases "joined n c")
    case True
    with less.prems show ?thesis
      by (intro exI [of _ "[]"] exI [of _ c]) simp
  next
    case False
    from progress [OF seq less.prems Y False] obtain k c1 where
      step: "thread_step T msk is_circle relaxation (rows G) (cols G) n k c = Some c1"
      and inv1: "sweep_invariant T msk is_circle relaxation n G G' c1"
      and lt: "steps_to_go (rows G) (cols G) n c1 < steps_to_go (rows G) (cols G) n c"
      by blast
    from less.hyps [OF lt inv1] obtain schedule c' where
      "run T msk is_circle relaxation (rows G) (cols G) n schedule c1 = Some c'"
      "sweep_invariant T msk is_circle relaxation n G G' c'" "joined n c'"
      by blast
    with step show ?thesis
      by (intro exI [of _ "k # schedule"] exI [of _ c']) simp
  qed
qed

lemma no_race:
  fixes T :: "('a::{zero,plus,minus,times,abs,ord}) scalar"
  assumes inv: "sweep_invariant T msk is_circle relaxation n G G' c"
    and Y: "0 \<le> cols G"
    and k: "k < n" "pc c k = Visit ix iy" "iy < y_end_of n (cols G) k"
    and k': "k' < n" "pc c k' = Visit ix' iy'" "iy' < y_end_of n (cols G) k'"
    and ne: "k \<noteq> k'"
  shows "ix \<noteq> ix' \<and> iy \<noteq> iy'"
proof
  from ne consider "k < k'" | "k' < k" by linarith
  then show "ix \<noteq> ix'"
  proof cases
    case 1
    from visit_chain [OF inv 1 k'(1,2)] k(2) show ?thesis by simp
  next
    case 2
    from visit_chain [OF inv 2 k(1,2)] k'(2) show ?thesis by simp
  qed
  from invariantD(3) [OF inv k(1)] k(2) invariantD(3) [OF inv k'(1)] k'(2)
  have "y_start_of n (cols G) k \<le> iy" "y_start_of n (cols G) k' \<le> iy'"
    by (simp_all add: pc_inside_def)
  with band_unique [OF k(1) k'(1) Y, of iy] k(3) k'(3) ne show "iy \<noteq> iy'"
    by auto
qed

lemma threaded_outcome:
  fixes T :: "('a::{zero,plus,minus,times,abs,ord}) scalar" and V :: "'a set"
  assumes seq: "detail_gauss_seidel T G msk is_circle relaxation = Some (G', r)"
    and n: "0 < n" and Y: "0 \<le> cols G"
    and V: "ordered_numbers V" "0 \<in> V"
    and run: "run T msk is_circle relaxation (rows G) (cols G) n schedule (initial G) = Some c"
    and inv: "sweep_invariant T msk is_circle relaxation n G G' c"
  shows "threaded_gauss_seidel T G msk is_circle relaxation n schedule
         = (if joined n c then Returned (G', r) else Running)"
proof (cases "joined n c")
  case False
  with run show ?thesis by (simp add: threaded_gauss_seidel_def)
next
  case True
  have eq: "map (max_residuals c) [0 ..< n]
        = map (\<lambda>k. maximum_over T msk is_circle relaxation G G'
                       (scan (rows G) (y_start_of n (cols G) k) (y_end_of n (cols G) k))) [0 ..< n]"
    by (rule map_cong) (simp_all add: joined_maximum [OF inv _ True])
  have "max_element (map (max_residuals c) [0 ..< n]) = Some r"
    unfolding eq largest_thread_maximum [OF V n Y] sequential_maximum [OF seq] ..
  with run True joined_grid [OF seq inv n True] show ?thesis
    by (simp add: threaded_gauss_seidel_def)
qed

section \<open>The threaded sweep and the sweep of a single thread\<close>

text \<open>
  C2. Take a grid (its extents are not negative), a mask and a configuration on which the
  sweep of a single thread returns the grid \<open>grid'\<close> and the residual \<open>r\<close>, and a scalar
  whose comparison is a strict total order on the numbers that can be a maximum of
  residuals and is false against everything else (as for floating point, where a
  comparison with NaN is false). Then the sweep run by two threads or more, each on its
  band and each waiting, before it works on the index \<open>ix\<close>, until the thread before it has
  published that it has completed \<open>ix\<close>, gives the same result under every interleaving of
  the steps of the threads: at any moment of any execution it is either still running or
  has returned exactly \<open>grid'\<close> and \<open>r\<close>; it never faults; every execution can be continued
  until it returns (no thread waits for ever); and no two threads ever work on the same
  index \<open>ix\<close> or the same index \<open>iy\<close> at the same time, so that the cells which one update
  reads and writes are touched by no other thread in the meantime. Every update of a cell
  reads what the scan of the single thread reads, which is why the grids agree (lemma
  \<open>read_during_sweep\<close>).
\<close>

theorem threaded_sweep_matches_single_thread:
  fixes T :: "('a::{zero,plus,minus,times,abs,ord}) scalar" and V :: "'a set"
  assumes n: "2 \<le> num_threads" and X: "0 \<le> rows grid" and Y: "0 \<le> cols grid"
    and seq: "detail_gauss_seidel T grid msk is_circle relaxation = Some (grid', r)"
    and V: "ordered_numbers V" "0 \<in> V"
  shows "(\<forall>schedule.
            threaded_gauss_seidel T grid msk is_circle relaxation num_threads schedule
              \<in> {Running, Returned (grid', r)})
    \<and> (\<forall>schedule. \<exists>more.
            threaded_gauss_seidel T grid msk is_circle relaxation num_threads (schedule @ more)
              = Returned (grid', r))
    \<and> (\<forall>schedule c k k' ix iy ix' iy'.
            run T msk is_circle relaxation (rows grid) (cols grid) num_threads schedule
              (initial grid) = Some c
            \<and> k < num_threads \<and> k' < num_threads \<and> k \<noteq> k'
            \<and> pc c k = Visit ix iy \<and> iy < y_end_of num_threads (cols grid) k
            \<and> pc c k' = Visit ix' iy' \<and> iy' < y_end_of num_threads (cols grid) k'
            \<longrightarrow> ix \<noteq> ix' \<and> iy \<noteq> iy')"
proof (intro conjI allI impI)
  from n have n0: "0 < num_threads" by simp
  note init = initial_invariant [OF seq X, of num_threads]
  {
    fix schedule
    from run_invariant [OF seq Y init, of schedule] obtain c where
      c: "run T msk is_circle relaxation (rows grid) (cols grid) num_threads schedule
            (initial grid) = Some c"
      and inv: "sweep_invariant T msk is_circle relaxation num_threads grid grid' c"
      by blast
    from threaded_outcome [OF seq n0 Y V c inv]
    show "threaded_gauss_seidel T grid msk is_circle relaxation num_threads schedule
            \<in> {Running, Returned (grid', r)}"
      by simp
    from completion [OF seq Y inv] obtain more c' where
      more: "run T msk is_circle relaxation (rows grid) (cols grid) num_threads more c = Some c'"
      and inv': "sweep_invariant T msk is_circle relaxation num_threads grid grid' c'"
      and j: "joined num_threads c'"
      by blast
    from c more have "run T msk is_circle relaxation (rows grid) (cols grid) num_threads
                        (schedule @ more) (initial grid) = Some c'"
      by (simp add: run_append)
    from threaded_outcome [OF seq n0 Y V this inv'] j
    show "\<exists>more. threaded_gauss_seidel T grid msk is_circle relaxation num_threads
                    (schedule @ more) = Returned (grid', r)"
      by auto
  }
  {
    fix schedule c k k' ix iy ix' iy'
    assume a: "run T msk is_circle relaxation (rows grid) (cols grid) num_threads schedule
              (initial grid) = Some c
            \<and> k < num_threads \<and> k' < num_threads \<and> k \<noteq> k'
            \<and> pc c k = Visit ix iy \<and> iy < y_end_of num_threads (cols grid) k
            \<and> pc c k' = Visit ix' iy' \<and> iy' < y_end_of num_threads (cols grid) k'"
    from run_invariant [OF seq Y init, of schedule] a
    have inv: "sweep_invariant T msk is_circle relaxation num_threads grid grid' c"
      by auto
    from a no_race [OF inv Y, of k ix iy k' ix' iy']
    show "ix \<noteq> ix'" "iy \<noteq> iy'" by simp_all
  }
qed

lemma ordered_fp: "ordered_numbers (range Fin)"
  unfolding ordered_numbers_def
proof (intro conjI ballI allI impI)
  fix x y z :: fp
  assume "x \<in> range Fin" "y \<in> range Fin" "z \<in> range Fin" "x < y" "y < z"
  then show "x < z" by (cases x; cases y; cases z) simp_all
next
  fix x y :: fp
  assume "x \<in> range Fin" "y \<in> range Fin"
  then show "x < y \<or> x = y \<or> y < x" by (cases x; cases y) auto
next
  fix x y :: fp
  assume "x \<in> range Fin" "y \<notin> range Fin"
  then show "\<not> x < y" by (cases x; cases y) auto
next
  fix x :: fp
  assume "x \<in> range Fin"
  then show "\<not> x < x" by (cases x) simp_all
qed

lemma threaded_example:
  "threaded_gauss_seidel fp_scalar (flat5 0) center False (Fin 1) 2
     [0, 1, 0, 1, 0, 1, 0, 1, 0, 1, 0, 1, 0, 1, 0, 1, 0, 1, 0, 1, 0, 1, 0, 1, 0, 1, 0, 1, 0, 1, 0, 1, 0, 1, 0, 1, 0, 1, 0, 1, 0, 1, 0, 1, 0, 1, 0, 1, 0, 1, 0, 1, 1, 1, 1] = Returned (flat5 1, Fin 1)"
  by (simp add: threaded_gauss_seidel_def initial_def thread_step_def y_start_of_def y_end_of_def
      coordinates_def joined_def example_simps flat5_def center_def fun_eq_iff numeral_2_eq_2)

theorem threaded_sweep_matches_single_thread_witness:
  "(2::nat) \<le> 2 \<and> 0 \<le> rows (flat5 0) \<and> 0 \<le> cols (flat5 0)
   \<and> detail_gauss_seidel fp_scalar (flat5 0) center False (Fin 1) = Some (flat5 1, Fin 1)
   \<and> ordered_numbers (range Fin) \<and> 0 \<in> range Fin
   \<and> threaded_gauss_seidel fp_scalar (flat5 0) center False (Fin 1) 2 [0, 1, 1, 0]
        \<in> {Running, Returned (flat5 1, Fin 1)}
   \<and> (\<exists>more. threaded_gauss_seidel fp_scalar (flat5 0) center False (Fin 1) 2
                 ([0, 1, 1, 0] @ more) = Returned (flat5 1, Fin 1))"
proof -
  have h: "(2::nat) \<le> 2" "0 \<le> rows (flat5 0)" "0 \<le> cols (flat5 0)"
    "detail_gauss_seidel fp_scalar (flat5 0) center False (Fin 1) = Some (flat5 1, Fin 1)"
    "ordered_numbers (range Fin)" "(0::fp) \<in> range Fin"
    using sweep_flat5 [of 0 False] by (simp_all add: flat5_def ordered_fp zero_fp_def)
  from threaded_sweep_matches_single_thread [OF h] h show ?thesis
    by blast
qed

section \<open>The update of a sweep and the residual that it returns\<close>

lemma greatest_is_maximum:
  assumes V: "ordered_numbers V" and g: "greatest_of V S m"
  shows "is_maximum S m"
  unfolding is_maximum_def
proof (intro conjI ballI)
  note d = greatest_ofD [OF g]
  show "m \<in> S" by (rule d(2))
  fix y assume y: "y \<in> S"
  show "\<not> m < y"
  proof (cases "y \<in> V")
    case True
    from d(3) [OF y True] show ?thesis .
  next
    case False
    from orderedD(4) [OF V d(1) False] show ?thesis .
  qed
qed

lemma residuals_scan:
  fixes T :: "('a::{zero,plus,minus,times,abs,ord}) scalar"
  shows "residual_of T relaxation is_circle G G'
           ` {c \<in> set (scan (rows G) y_start y_end). msk (fst c) (snd c)}
         = residuals T msk is_circle relaxation G G' y_start y_end"
proof (intro set_eqI iffI)
  fix v assume "v \<in> residual_of T relaxation is_circle G G'
                      ` {c \<in> set (scan (rows G) y_start y_end). msk (fst c) (snd c)}"
  then obtain ix iy where "(ix, iy) \<in> set (scan (rows G) y_start y_end)" "msk ix iy"
    "v = residual_of T relaxation is_circle G G' (ix, iy)"
    by auto
  then have "0 \<le> ix \<and> ix < rows G \<and> y_start \<le> iy \<and> iy < y_end \<and> msk ix iy"
    "v = \<bar>residual_in T relaxation is_circle (rows G) (cols G) (seen G G' ix iy) ix iy\<bar>"
    by (simp_all add: set_scan residual_of_def)
  then show "v \<in> residuals T msk is_circle relaxation G G' y_start y_end"
    unfolding residuals_def by blast
next
  fix v assume "v \<in> residuals T msk is_circle relaxation G G' y_start y_end"
  then obtain ix iy where c: "0 \<le> ix" "ix < rows G" "y_start \<le> iy" "iy < y_end" "msk ix iy"
    and v: "v = \<bar>residual_in T relaxation is_circle (rows G) (cols G) (seen G G' ix iy) ix iy\<bar>"
    unfolding residuals_def by blast
  from c have "(ix, iy) \<in> {c \<in> set (scan (rows G) y_start y_end). msk (fst c) (snd c)}"
    by (simp add: set_scan)
  moreover from v have "v = residual_of T relaxation is_circle G G' (ix, iy)"
    by (simp add: residual_of_def)
  ultimately show "v \<in> residual_of T relaxation is_circle G G'
                      ` {c \<in> set (scan (rows G) y_start y_end). msk (fst c) (snd c)}"
    by (rule rev_image_eqI)
qed

lemma max_element_greatest:
  assumes V: "ordered_numbers V" and x: "x \<in> V" and m: "max_element (x # xs) = Some m"
  shows "greatest_of V (insert x (set xs)) m"
  using greatest_foldl [OF V x, of xs] m by simp

lemma sweep_grid2:
  "detail_gauss_seidel fp_scalar grid2 corner False (Fin (1 / 2)) = Some (grid2', Fin (9 / 8))"
  by (simp add: example_simps grid2_def grid2'_def corner_def fun_eq_iff)

lemma run_grid2:
  "\<exists>c. run fp_scalar corner False (Fin (1 / 2)) (rows grid2) (cols grid2) 2
          [1, 0, 0, 0, 1, 1, 1, 0, 0, 0, 0, 1, 1, 1, 1] (initial grid2) = Some c
       \<and> joined 2 c \<and> max_residuals c 0 = Fin (1 / 2) \<and> max_residuals c 1 = Fin (9 / 8)"
  by (simp add: initial_def thread_step_def y_start_of_def y_end_of_def
      coordinates_def joined_def example_simps grid2_def corner_def fun_eq_iff numeral_2_eq_2)


lemma sweep_maximum:
  fixes T :: "('a::{zero,plus,minus,times,abs,ord}) scalar" and V :: "'a set"
  assumes seq: "detail_gauss_seidel T grid msk is_circle relaxation = Some (grid', r)"
    and V: "ordered_numbers V" "0 \<in> V"
  shows "is_maximum (insert 0 (residuals T msk is_circle relaxation grid grid' 0 (cols grid))) r"
proof -
  from maximum_over_greatest [OF V, of T relaxation is_circle grid grid'
      "scan (rows grid) 0 (cols grid)" msk]
  have "greatest_of V (insert 0 (residuals T msk is_circle relaxation grid grid' 0 (cols grid))) r"
    unfolding residuals_scan sequential_maximum [OF seq, symmetric] .
  from greatest_is_maximum [OF V(1) this] show ?thesis .
qed

lemma threaded_maxima:
  fixes T :: "('a::{zero,plus,minus,times,abs,ord}) scalar" and V :: "'a set"
  assumes seq: "detail_gauss_seidel T grid msk is_circle relaxation = Some (grid', r)"
    and V: "ordered_numbers V" "0 \<in> V"
    and n: "0 < n" and X: "0 \<le> rows grid" and Y: "0 \<le> cols grid"
    and run: "run T msk is_circle relaxation (rows grid) (cols grid) n schedule (initial grid)
                = Some c"
    and j: "joined n c"
  shows "(\<forall>k<n. is_maximum
                  (insert 0 (residuals T msk is_circle relaxation grid grid'
                               (y_start_of n (cols grid) k) (y_end_of n (cols grid) k)))
                  (max_residuals c k))
       \<and> is_maximum (max_residuals c ` {..<n}) r
       \<and> threaded_gauss_seidel T grid msk is_circle relaxation n schedule = Returned (grid', r)"
proof (intro conjI allI impI)
  from run_invariant [OF seq Y initial_invariant [OF seq X], of n schedule] run
  have inv: "sweep_invariant T msk is_circle relaxation n grid grid' c"
    by simp
  have part: "greatest_of V
                (insert 0 (residuals T msk is_circle relaxation grid grid'
                             (y_start_of n (cols grid) k) (y_end_of n (cols grid) k)))
                (max_residuals c k)" if k: "k < n" for k
    using maximum_over_greatest [OF V, of T relaxation is_circle grid grid'
        "scan (rows grid) (y_start_of n (cols grid) k) (y_end_of n (cols grid) k)" msk]
    unfolding residuals_scan joined_maximum [OF inv k j, symmetric] .
  show "is_maximum
          (insert 0 (residuals T msk is_circle relaxation grid grid'
                       (y_start_of n (cols grid) k) (y_end_of n (cols grid) k)))
          (max_residuals c k)" if "k < n" for k
    by (rule greatest_is_maximum [OF V(1) part [OF that]])
  from threaded_outcome [OF seq n Y V run inv] j
  show ret: "threaded_gauss_seidel T grid msk is_circle relaxation n schedule = Returned (grid', r)"
    by simp
  from n have upt: "[0 ..< n] = 0 # [Suc 0 ..< n]"
    by (simp add: upt_conv_Cons)
  from ret run j have "max_element (map (max_residuals c) [0 ..< n]) = Some r"
    by (simp add: threaded_gauss_seidel_def split: option.splits)
  then have m: "max_element (max_residuals c 0 # map (max_residuals c) [Suc 0 ..< n]) = Some r"
    by (simp add: upt)
  have "{..<n} = insert 0 {Suc 0 ..< n}"
    using n by auto
  then have "insert (max_residuals c 0) (set (map (max_residuals c) [Suc 0 ..< n]))
             = max_residuals c ` {..<n}"
    by simp
  with max_element_greatest [OF V(1) greatest_ofD(1) [OF part [OF n]] m]
  have "greatest_of V (max_residuals c ` {..<n}) r"
    by simp
  from greatest_is_maximum [OF V(1) this]
  show "is_maximum (max_residuals c ` {..<n}) r" .
qed

lemma threaded_completion:
  fixes T :: "('a::{zero,plus,minus,times,abs,ord}) scalar" and V :: "'a set"
  assumes seq: "detail_gauss_seidel T grid msk is_circle relaxation = Some (grid', r)"
    and V: "ordered_numbers V" "0 \<in> V"
    and n: "0 < n" and X: "0 \<le> rows grid" and Y: "0 \<le> cols grid"
  shows "\<exists>more. threaded_gauss_seidel T grid msk is_circle relaxation n (schedule @ more)
                  = Returned (grid', r)"
proof -
  from run_invariant [OF seq Y initial_invariant [OF seq X], of n schedule] obtain c where
    c: "run T msk is_circle relaxation (rows grid) (cols grid) n schedule (initial grid) = Some c"
    and inv: "sweep_invariant T msk is_circle relaxation n grid grid' c"
    by blast
  from completion [OF seq Y inv] obtain more c' where
    more: "run T msk is_circle relaxation (rows grid) (cols grid) n more c = Some c'"
    and inv': "sweep_invariant T msk is_circle relaxation n grid grid' c'"
    and j: "joined n c'"
    by blast
  from c more have "run T msk is_circle relaxation (rows grid) (cols grid) n (schedule @ more)
                      (initial grid) = Some c'"
    by (simp add: run_append)
  from threaded_outcome [OF seq n Y V this inv'] j show ?thesis
    by auto
qed

text \<open>
  C1. One relaxation sweep (a single worker on the whole grid) returns whenever both
  extents of the grid are at least 2 (one row is enough on a circular X axis), and when it
  returns the grid \<open>grid'\<close> and the value \<open>r\<close>: the shape is unchanged; every cell inside the
  grid that the mask flags has received its old value plus the residual, which is the
  relaxation factor times (a quarter of the sum of its left, right, lower and upper
  neighbours minus its old value), the neighbours being read as the sweep sees them at
  that moment (already updated when they come earlier in the scan, not yet otherwise);
  every other cell is untouched; and \<open>r\<close> is the running maximum, by \<^verbatim>\<open>std::max\<close> from
  zero, of the absolute residuals of the flagged cells in scan order. For a scalar whose
  comparison is a strict total order on the numbers that can be a maximum of residuals and
  is false against everything else (as for floating point, where a comparison with NaN is
  false), \<open>r\<close> is a maximum of the absolute residuals of the flagged cells and zero: it is
  one of them and is below none of them. And when the sweep is run by two threads or
  more: every execution can be continued until all the threads have finished and the
  sweep returns; and in any interleaving of their steps after which all of them have
  finished, the maximum recorded by each worker is a maximum of the absolute residuals of
  the flagged cells of its band and zero, the value returned is a maximum of the maxima
  of the workers (one of them, below none of them), and it is that same \<open>r\<close>, returned with
  that same \<open>grid'\<close>. The example has three flagged cells and the relaxation factor 0.5: the
  residual of the largest absolute value is negative, is not the last one of the scan and
  is not in the band of the first worker.
\<close>

theorem sweep_updates_masked_cells:
  fixes T :: "('a::{zero,plus,minus,times,abs,ord}) scalar" and V :: "'a set"
  shows "((2 \<le> rows grid \<or> is_circle) \<and> 2 \<le> cols grid \<longrightarrow>
            (\<exists>grid' r. detail_gauss_seidel T grid msk is_circle relaxation = Some (grid', r)))
    \<and> (\<forall>grid' r. detail_gauss_seidel T grid msk is_circle relaxation = Some (grid', r) \<longrightarrow>
          rows grid' = rows grid \<and> cols grid' = cols grid
          \<and> (\<forall>ix iy. coeff grid' ix iy =
                (if in_range grid ix iy \<and> msk ix iy
                 then coeff grid ix iy
                      + residual_in T relaxation is_circle (rows grid) (cols grid)
                          (seen grid grid' ix iy) ix iy
                 else coeff grid ix iy))
          \<and> r = foldl std_max 0
                    (map (\<lambda>(ix, iy). \<bar>residual_in T relaxation is_circle (rows grid) (cols grid)
                                         (seen grid grid' ix iy) ix iy\<bar>)
                       (filter (\<lambda>(ix, iy). msk ix iy) (scan (rows grid) 0 (cols grid))))
          \<and> (ordered_numbers V \<and> 0 \<in> V \<longrightarrow>
                is_maximum
                  (insert 0 (residuals T msk is_circle relaxation grid grid' 0 (cols grid))) r
                \<and> (\<forall>num_threads schedule.
                      2 \<le> num_threads \<and> 0 \<le> rows grid \<and> 0 \<le> cols grid \<longrightarrow>
                        (\<exists>more. threaded_gauss_seidel T grid msk is_circle relaxation num_threads
                                   (schedule @ more) = Returned (grid', r)))
                \<and> (\<forall>num_threads schedule c.
                      2 \<le> num_threads \<and> 0 \<le> rows grid \<and> 0 \<le> cols grid
                      \<and> run T msk is_circle relaxation (rows grid) (cols grid) num_threads schedule
                            (initial grid) = Some c
                      \<and> joined num_threads c \<longrightarrow>
                        (\<forall>k<num_threads.
                            is_maximum
                              (insert 0 (residuals T msk is_circle relaxation grid grid'
                                           (y_start_of num_threads (cols grid) k)
                                           (y_end_of num_threads (cols grid) k)))
                              (max_residuals c k))
                        \<and> is_maximum (max_residuals c ` {..<num_threads}) r
                        \<and> threaded_gauss_seidel T grid msk is_circle relaxation num_threads
                              schedule = Returned (grid', r))))"
proof (intro conjI impI allI)
  assume "(2 \<le> rows grid \<or> is_circle) \<and> 2 \<le> cols grid"
  then show "\<exists>grid' r. detail_gauss_seidel T grid msk is_circle relaxation = Some (grid', r)"
    using sweep_total [of grid is_circle T msk relaxation] by blast
next
  fix grid' r
  assume seq: "detail_gauss_seidel T grid msk is_circle relaxation = Some (grid', r)"
  note t = sweep_trace [OF seq]
  show "rows grid' = rows grid" "cols grid' = cols grid"
    using t by blast+
  show "coeff grid' ix iy =
          (if in_range grid ix iy \<and> msk ix iy
           then coeff grid ix iy
                + residual_in T relaxation is_circle (rows grid) (cols grid)
                    (seen grid grid' ix iy) ix iy
           else coeff grid ix iy)" for ix iy
    using t by blast
  show "r = foldl std_max 0
              (map (\<lambda>(ix, iy). \<bar>residual_in T relaxation is_circle (rows grid) (cols grid)
                                   (seen grid grid' ix iy) ix iy\<bar>)
                 (filter (\<lambda>(ix, iy). msk ix iy) (scan (rows grid) 0 (cols grid))))"
    using t by blast
  assume V: "ordered_numbers V \<and> 0 \<in> V"
  then have V': "ordered_numbers V" "0 \<in> V"
    by simp_all
  show "is_maximum (insert 0 (residuals T msk is_circle relaxation grid grid' 0 (cols grid))) r"
    by (rule sweep_maximum [OF seq V'])
  show "\<exists>more. threaded_gauss_seidel T grid msk is_circle relaxation num_threads
                  (schedule @ more) = Returned (grid', r)"
    if "2 \<le> num_threads \<and> 0 \<le> rows grid \<and> 0 \<le> cols grid" for num_threads schedule
    by (rule threaded_completion [OF seq V']) (use that in simp_all)
  fix num_threads schedule c
  assume a: "2 \<le> num_threads \<and> 0 \<le> rows grid \<and> 0 \<le> cols grid
      \<and> run T msk is_circle relaxation (rows grid) (cols grid) num_threads schedule
            (initial grid) = Some c
      \<and> joined num_threads c"
  then have h: "0 < num_threads" "0 \<le> rows grid" "0 \<le> cols grid"
    "run T msk is_circle relaxation (rows grid) (cols grid) num_threads schedule
       (initial grid) = Some c" "joined num_threads c"
    by simp_all
  note m = threaded_maxima [OF seq V' h]
  show "is_maximum
          (insert 0 (residuals T msk is_circle relaxation grid grid'
                       (y_start_of num_threads (cols grid) k) (y_end_of num_threads (cols grid) k)))
          (max_residuals c k)" if "k < num_threads" for k
    using m that by blast
  show "is_maximum (max_residuals c ` {..<num_threads}) r"
    using m by blast
  show "threaded_gauss_seidel T grid msk is_circle relaxation num_threads schedule
          = Returned (grid', r)"
    using m by blast
qed

theorem sweep_updates_masked_cells_witness:
  "2 \<le> rows grid2 \<and> 2 \<le> cols grid2
   \<and> detail_gauss_seidel fp_scalar grid2 corner False (Fin (1 / 2)) = Some (grid2', Fin (9 / 8))
   \<and> coeff grid2' 0 1
       = coeff grid2 0 1
         + residual_in fp_scalar (Fin (1 / 2)) False 2 2 (seen grid2 grid2' 0 1) 0 1
   \<and> residual_in fp_scalar (Fin (1 / 2)) False 2 2 (seen grid2 grid2' 0 0) 0 0 = Fin (1 / 2)
   \<and> residual_in fp_scalar (Fin (1 / 2)) False 2 2 (seen grid2 grid2' 0 1) 0 1 = Fin (- (9 / 8))
   \<and> residual_in fp_scalar (Fin (1 / 2)) False 2 2 (seen grid2 grid2' 1 1) 1 1 = Fin (23 / 32)
   \<and> coeff grid2' 0 1 = Fin (23 / 8)
   \<and> coeff grid2' 1 0 = coeff grid2 1 0
   \<and> ordered_numbers (range Fin) \<and> 0 \<in> range Fin
   \<and> is_maximum (insert 0 (residuals fp_scalar corner False (Fin (1 / 2)) grid2 grid2' 0 2))
        (Fin (9 / 8))
   \<and> (\<exists>c. run fp_scalar corner False (Fin (1 / 2)) (rows grid2) (cols grid2) 2
               [1, 0, 0, 0, 1, 1, 1, 0, 0, 0, 0, 1, 1, 1, 1] (initial grid2) = Some c
          \<and> joined 2 c
          \<and> max_residuals c 0 = Fin (1 / 2) \<and> max_residuals c 1 = Fin (9 / 8)
          \<and> is_maximum (max_residuals c ` {..<2}) (Fin (9 / 8)))
   \<and> threaded_gauss_seidel fp_scalar grid2 corner False (Fin (1 / 2)) 2
        [1, 0, 0, 0, 1, 1, 1, 0, 0, 0, 0, 1, 1, 1, 1] = Returned (grid2', Fin (9 / 8))
   \<and> (\<exists>more. threaded_gauss_seidel fp_scalar grid2 corner False (Fin (1 / 2)) 2
                 ([1, 0] @ more) = Returned (grid2', Fin (9 / 8)))"
proof -
  have d: "rows grid2 = 2" "cols grid2 = 2"
    by (simp_all add: grid2_def)
  have V: "ordered_numbers (range Fin) \<and> (0::fp) \<in> range Fin"
    by (simp add: ordered_fp zero_fp_def)
  from run_grid2 obtain c where c:
    "run fp_scalar corner False (Fin (1 / 2)) (rows grid2) (cols grid2) 2
       [1, 0, 0, 0, 1, 1, 1, 0, 0, 0, 0, 1, 1, 1, 1] (initial grid2) = Some c"
    "joined 2 c" "max_residuals c 0 = Fin (1 / 2)" "max_residuals c 1 = Fin (9 / 8)"
    by blast
  note all = sweep_updates_masked_cells [of grid2 False fp_scalar corner "Fin (1 / 2)" "range Fin",
      THEN conjunct2, rule_format, OF sweep_grid2]
  note cells = all [THEN conjunct2, THEN conjunct2, THEN conjunct1, rule_format]
  note maxima = all [THEN conjunct2, THEN conjunct2, THEN conjunct2, THEN conjunct2, rule_format,
      OF V]
  note seq_max = maxima [THEN conjunct1]
  have "(2::nat) \<le> 2 \<and> 0 \<le> rows grid2 \<and> 0 \<le> cols grid2"
    using d by simp
  note fin = maxima [THEN conjunct2, THEN conjunct1, rule_format, OF this, of "[1, 0]"]
  have "(2::nat) \<le> 2 \<and> 0 \<le> rows grid2 \<and> 0 \<le> cols grid2
      \<and> run fp_scalar corner False (Fin (1 / 2)) (rows grid2) (cols grid2) 2
            [1, 0, 0, 0, 1, 1, 1, 0, 0, 0, 0, 1, 1, 1, 1] (initial grid2) = Some c
      \<and> joined 2 c"
    using c d by simp
  note thr = maxima [THEN conjunct2, THEN conjunct2, rule_format, OF this]
  have r: "residual_in fp_scalar (Fin (1 / 2)) False 2 2 (seen grid2 grid2' 0 0) 0 0 = Fin (1 / 2)"
    "residual_in fp_scalar (Fin (1 / 2)) False 2 2 (seen grid2 grid2' 0 1) 0 1 = Fin (- (9 / 8))"
    "residual_in fp_scalar (Fin (1 / 2)) False 2 2 (seen grid2 grid2' 1 1) 1 1 = Fin (23 / 32)"
    by (simp_all add: residual_in_def seen_def precedes_def grid2_def grid2'_def fp_scalar_def
        ix0_of_def ix1_of_def iy0_of_def iy1_of_def)
  have g: "coeff grid2' 0 1 = Fin (23 / 8)"
    by (simp add: grid2'_def)
  from cells [of 0 1] cells [of 1 0] seq_max fin thr c d r g V sweep_grid2 show ?thesis
    by (simp add: in_range_def corner_def)
qed

end
